theory Spec2Isabelle
  imports Main "HOL-Library.Word"
begin

unbundle bit_operations_syntax

section \<open>Common definitions\<close>

text \<open>
  The library is C on an LP64 platform: \<open>size_t\<close> and every pointer are 64-bit values.
  Element references (\<open>void *\<close>) are opaque addresses compared by identity; \<open>NULL\<close> is 0.
  A C function that writes its result through a pointer returns that result in the model.
  A function whose execution is undefined in C (a read or write outside an allocated
  buffer, a read of a slot that was never written, a dereferenced null or dangling
  pointer, a float to integer conversion out of range) has the value \<open>None\<close>; the same
  value stands for a loop that does not terminate.
\<close>

type_synonym size_t = "64 word"
type_synonym void_ptr = "64 word"

datatype cc_stat =
    CC_OK
  | CC_ERR_ALLOC
  | CC_ERR_INVALID_RANGE
  | CC_ERR_MAX_CAPACITY
  | CC_ERR_VALUE_NOT_FOUND
  | CC_ERR_OUT_OF_RANGE

text \<open>
  An output slot \<open>void **out\<close>: either the null pointer or a pointer to a slot that
  holds a value.
\<close>

datatype 'a out_slot = Out_NULL | Out 'a

section \<open>Single-precision arithmetic of the growth factor\<close>

text \<open>
  \<open>exp_factor\<close> is a C \<open>float\<close>: an IEEE 754 binary32 bit pattern. A pattern denotes
  a finite value \<open>(-1)^s * m * 2^e\<close>, an infinity or a NaN. The product
  \<open>ar->capacity * ar->exp_factor\<close> converts the capacity to \<open>float\<close> and multiplies in
  single precision, both rounding to nearest with ties to even; the cast to \<open>size_t\<close>
  discards the fraction and is undefined when the integral part is not a \<open>size_t\<close>.
\<close>

datatype fpval = Fin bool nat int | Inf bool | NaN

definition float_decode :: "32 word \<Rightarrow> fpval" where
  "float_decode w =
     (let s = bit w 31;
          ex = unat (take_bit 8 (drop_bit 23 w));
          fr = unat (take_bit 23 w)
      in if ex = 255 then (if fr = 0 then Inf s else NaN)
         else if ex = 0 then Fin s fr (- 149)
         else Fin s (2 ^ 23 + fr) (int ex - 150))"

fun bitlen :: "nat \<Rightarrow> nat" where
  "bitlen m = (if m = 0 then 0 else Suc (bitlen (m div 2)))"

declare bitlen.simps [simp del]

definition round_even :: "nat \<Rightarrow> nat \<Rightarrow> nat" where
  "round_even m k =
     (let q = m div 2 ^ k; r = m mod 2 ^ k
      in if 2 * r < 2 ^ k then q
         else if 2 ^ k < 2 * r then q + 1
         else if even q then q else q + 1)"

definition fp_round :: "bool \<Rightarrow> nat \<Rightarrow> int \<Rightarrow> fpval" where
  "fp_round s m e =
     (let k = nat (max (int (bitlen m) - 24) (- 149 - e));
          m' = round_even m k;
          e' = e + int k
      in if 2 ^ 277 \<le> m' * 2 ^ nat (e' + 149) then Inf s else Fin s m' e')"

definition float_of_size :: "size_t \<Rightarrow> fpval" where
  "float_of_size n = fp_round False (unat n) 0"

fun fp_mul :: "fpval \<Rightarrow> fpval \<Rightarrow> fpval" where
  "fp_mul (Fin s1 m1 e1) (Fin s2 m2 e2) = fp_round (s1 \<noteq> s2) (m1 * m2) (e1 + e2)"
| "fp_mul (Fin s1 m1 e1) (Inf s2) = (if m1 = 0 then NaN else Inf (s1 \<noteq> s2))"
| "fp_mul (Inf s1) (Fin s2 m2 e2) = (if m2 = 0 then NaN else Inf (s1 \<noteq> s2))"
| "fp_mul (Inf s1) (Inf s2) = Inf (s1 \<noteq> s2)"
| "fp_mul NaN y = NaN"
| "fp_mul x NaN = NaN"

definition fp_trunc :: "nat \<Rightarrow> int \<Rightarrow> nat" where
  "fp_trunc m e = (if 0 \<le> e then m * 2 ^ nat e else m div 2 ^ nat (- e))"

fun size_of_float :: "fpval \<Rightarrow> size_t option" where
  "size_of_float (Fin s m e) =
     (let t = fp_trunc m e
      in if t = 0 then Some 0
         else if s \<or> 2 ^ 64 \<le> t then None
         else Some (of_nat t))"
| "size_of_float (Inf s) = None"
| "size_of_float NaN = None"

text \<open>\<open>(size_t)(ar->capacity * ar->exp_factor)\<close>\<close>

definition scaled_capacity :: "size_t \<Rightarrow> 32 word \<Rightarrow> size_t option" where
  "scaled_capacity capacity exp_factor =
     size_of_float (fp_mul (float_of_size capacity) (float_decode exp_factor))"

section \<open>The dynamic array\<close>

text \<open>
  A buffer is the list of its allocated slots. A slot is \<open>None\<close> until it is written:
  \<open>malloc\<close> returns such slots, \<open>calloc\<close> returns slots holding \<open>NULL\<close>. Whether an
  allocation succeeds is decided by the environment and is an argument of every function
  that allocates. Buffers are counted in slots.
\<close>

type_synonym buffer = "void_ptr option list"

record cc_array =
  ar_size :: size_t
  ar_capacity :: size_t
  ar_exp_factor :: "32 word"
  ar_buffer :: buffer

definition DEFAULT_CAPACITY :: size_t where
  "DEFAULT_CAPACITY = 8"

text \<open>The \<open>float\<close> that \<open>float ex = DEFAULT_EXPANSION_FACTOR\<close> (the integer 2) stores.\<close>

definition DEFAULT_EXPANSION_FACTOR :: "32 word" where
  "DEFAULT_EXPANSION_FACTOR = 0x40000000"

text \<open>
  \<open>sizeof(void*)\<close> where \<open>size_t\<close> has 64 bits. A byte count is a \<open>size_t\<close>, so a
  product \<open>n * sizeof(void*)\<close> is taken modulo \<open>2^64\<close>; \<open>slots bytes\<close> is the number of
  slots that \<open>bytes\<close> bytes hold. \<open>expand_capacity\<close> multiplies a capacity that it has
  just computed, and there the products are modelled. Elsewhere the source multiplies the
  size, the capacity or an index difference of the array as it is, which count slots of
  the buffer that the array has, and the count is kept in slots.
\<close>

definition sizeof_ptr :: size_t where
  "sizeof_ptr = 8"

definition slots :: "size_t \<Rightarrow> nat" where
  "slots bytes = unat bytes div unat sizeof_ptr"

definition malloc :: "bool \<Rightarrow> nat \<Rightarrow> buffer option" where
  "malloc ok n = (if ok then Some (replicate n None) else None)"

definition calloc :: "bool \<Rightarrow> nat \<Rightarrow> buffer option" where
  "calloc ok n = (if ok then Some (replicate n (Some 0)) else None)"

definition buf_read :: "buffer \<Rightarrow> nat \<Rightarrow> void_ptr option" where
  "buf_read buf i = (if i < length buf then buf ! i else None)"

definition buf_write :: "buffer \<Rightarrow> nat \<Rightarrow> void_ptr \<Rightarrow> buffer option" where
  "buf_write buf i v = (if i < length buf then Some (buf[i := Some v]) else None)"

text \<open>\<open>memcpy(dst, src, n)\<close> between two buffers, in slots.\<close>

definition memcpy :: "buffer \<Rightarrow> buffer \<Rightarrow> nat \<Rightarrow> buffer option" where
  "memcpy dst src n =
     (if n \<le> length dst \<and> n \<le> length src then Some (take n src @ drop n dst) else None)"

text \<open>\<open>memmove(&buf[dst], &buf[src], n)\<close> inside one buffer, in slots.\<close>

definition memmove :: "buffer \<Rightarrow> nat \<Rightarrow> nat \<Rightarrow> nat \<Rightarrow> buffer option" where
  "memmove buf dst src n =
     (if dst + n \<le> length buf \<and> src + n \<le> length buf
      then Some (take dst buf @ take n (drop src buf) @ drop (dst + n) buf)
      else None)"

text \<open>
  \<open>cc_array_new\<close>: the two arguments say whether the allocation of the structure and of
  the buffer succeed.
\<close>

definition cc_array_new :: "bool \<Rightarrow> bool \<Rightarrow> cc_stat \<times> cc_array option" where
  "cc_array_new ok_ar ok_buff =
     (if \<not> ok_ar then (CC_ERR_ALLOC, None)
      else (case malloc ok_buff (unat DEFAULT_CAPACITY) of
              None \<Rightarrow> (CC_ERR_ALLOC, None)
            | Some buff \<Rightarrow>
                (CC_OK, Some \<lparr>ar_size = 0, ar_capacity = DEFAULT_CAPACITY,
                               ar_exp_factor = DEFAULT_EXPANSION_FACTOR, ar_buffer = buff\<rparr>)))"

text \<open>
  \<open>expand_capacity\<close>. \<open>CC_MAX_ELEMENTS\<close> is defined in a header that is not part of the
  sources; it is the first argument of every function that uses it. The new buffer has
  the slots of \<open>ar->capacity * sizeof(void*)\<close> bytes, and
  \<open>ar->size * sizeof(void*)\<close> bytes are copied into it.
\<close>

definition expand_capacity :: "size_t \<Rightarrow> bool \<Rightarrow> cc_array \<Rightarrow> (cc_stat \<times> cc_array) option" where
  "expand_capacity CC_MAX_ELEMENTS ok ar =
     (if ar_capacity ar = CC_MAX_ELEMENTS then Some (CC_ERR_MAX_CAPACITY, ar)
      else (case scaled_capacity (ar_capacity ar) (ar_exp_factor ar) of
              None \<Rightarrow> None
            | Some new_capacity \<Rightarrow>
                (let ar1 = (if new_capacity \<le> ar_capacity ar
                            then ar\<lparr>ar_capacity := CC_MAX_ELEMENTS\<rparr>
                            else ar\<lparr>ar_capacity := new_capacity\<rparr>)
                 in (case malloc ok (slots (ar_capacity ar1 * sizeof_ptr)) of
                       None \<Rightarrow> Some (CC_ERR_ALLOC, ar1)
                     | Some new_buff \<Rightarrow>
                         (case memcpy new_buff (ar_buffer ar1)
                                 (slots (ar_size ar1 * sizeof_ptr)) of
                            None \<Rightarrow> None
                          | Some b \<Rightarrow> Some (CC_OK, ar1\<lparr>ar_buffer := b\<rparr>))))))"

definition cc_array_add ::
  "size_t \<Rightarrow> bool \<Rightarrow> cc_array \<Rightarrow> void_ptr \<Rightarrow> (cc_stat \<times> cc_array) option" where
  "cc_array_add CC_MAX_ELEMENTS ok ar element =
     (case (if ar_capacity ar \<le> ar_size ar then expand_capacity CC_MAX_ELEMENTS ok ar
            else Some (CC_OK, ar)) of
        None \<Rightarrow> None
      | Some (status, ar1) \<Rightarrow>
          if status \<noteq> CC_OK then Some (status, ar1)
          else (case buf_write (ar_buffer ar1) (unat (ar_size ar1)) element of
                  None \<Rightarrow> None
                | Some b \<Rightarrow> Some (CC_OK, ar1\<lparr>ar_buffer := b, ar_size := ar_size ar1 + 1\<rparr>)))"

definition cc_array_add_at ::
  "size_t \<Rightarrow> bool \<Rightarrow> cc_array \<Rightarrow> void_ptr \<Rightarrow> size_t \<Rightarrow> (cc_stat \<times> cc_array) option" where
  "cc_array_add_at CC_MAX_ELEMENTS ok ar element index =
     (if index = ar_size ar then cc_array_add CC_MAX_ELEMENTS ok ar element
      else if (ar_size ar = 0 \<and> index \<noteq> 0) \<or> ar_size ar - 1 < index
      then Some (CC_ERR_OUT_OF_RANGE, ar)
      else (case (if ar_capacity ar \<le> ar_size ar then expand_capacity CC_MAX_ELEMENTS ok ar
                  else Some (CC_OK, ar)) of
              None \<Rightarrow> None
            | Some (status, ar1) \<Rightarrow>
                if status \<noteq> CC_OK then Some (status, ar1)
                else (case memmove (ar_buffer ar1) (unat (index + 1)) (unat index)
                             (unat (ar_size ar1 - index)) of
                        None \<Rightarrow> None
                      | Some b1 \<Rightarrow>
                          (case buf_write b1 (unat index) element of
                             None \<Rightarrow> None
                           | Some b2 \<Rightarrow>
                               Some (CC_OK, ar1\<lparr>ar_buffer := b2, ar_size := ar_size ar1 + 1\<rparr>)))))"

definition cc_array_replace_at ::
  "cc_array \<Rightarrow> void_ptr \<Rightarrow> size_t \<Rightarrow> void_ptr out_slot
     \<Rightarrow> (cc_stat \<times> cc_array \<times> void_ptr out_slot) option" where
  "cc_array_replace_at ar element index out =
     (if ar_size ar \<le> index then Some (CC_ERR_OUT_OF_RANGE, ar, out)
      else (case (case out of
                    Out_NULL \<Rightarrow> Some Out_NULL
                  | Out old \<Rightarrow> map_option Out (buf_read (ar_buffer ar) (unat index))) of
              None \<Rightarrow> None
            | Some out' \<Rightarrow>
                (case buf_write (ar_buffer ar) (unat index) element of
                   None \<Rightarrow> None
                 | Some b \<Rightarrow> Some (CC_OK, ar\<lparr>ar_buffer := b\<rparr>, out'))))"

text \<open>
  The loop of \<open>cc_array_index_of\<close>, from index \<open>i\<close>. The second component of the
  result is the value written to \<open>*index\<close>, if any.
\<close>

function index_of_loop :: "cc_array \<Rightarrow> void_ptr \<Rightarrow> size_t \<Rightarrow> (cc_stat \<times> size_t option) option" where
  "index_of_loop ar element i =
     (if i < ar_size ar
      then (case buf_read (ar_buffer ar) (unat i) of
              None \<Rightarrow> None
            | Some v \<Rightarrow> if v = element then Some (CC_OK, Some i)
                        else index_of_loop ar element (i + 1))
      else Some (CC_ERR_OUT_OF_RANGE, None))"
  by pat_completeness auto
termination
proof (relation "measure (\<lambda>(ar, element, i). unat (ar_size ar) - unat i)")
  show "wf (measure (\<lambda>(ar, element, i). unat (ar_size ar) - unat i))"
    by simp
next
  fix ar :: cc_array and element :: void_ptr and i :: size_t and v :: void_ptr
  assume lt: "i < ar_size ar"
  then have "unat i < unat (ar_size ar)"
    by (simp add: word_less_nat_alt)
  moreover have "unat (ar_size ar) < 2 ^ 64"
    using unsigned_less [of "ar_size ar"] by simp
  ultimately have "unat i + 1 < 2 ^ 64"
    by linarith
  then have "unat (i + 1) = unat i + 1"
    by (simp add: unat_word_ariths)
  with lt show "((ar, element, i + 1), (ar, element, i))
                  \<in> measure (\<lambda>(ar, element, i). unat (ar_size ar) - unat i)"
    by (simp add: word_less_nat_alt)
qed

declare index_of_loop.simps [simp del]

definition cc_array_index_of :: "cc_array \<Rightarrow> void_ptr \<Rightarrow> (cc_stat \<times> size_t option) option" where
  "cc_array_index_of ar element = index_of_loop ar element 0"

text \<open>
  \<open>cc_array_remove\<close> reads its local \<open>index\<close> only after \<open>cc_array_index_of\<close> has
  written it.
\<close>

definition cc_array_remove ::
  "cc_array \<Rightarrow> void_ptr \<Rightarrow> void_ptr out_slot
     \<Rightarrow> (cc_stat \<times> cc_array \<times> void_ptr out_slot) option" where
  "cc_array_remove ar element out =
     (case cc_array_index_of ar element of
        None \<Rightarrow> None
      | Some (status, None) \<Rightarrow>
          if status = CC_ERR_OUT_OF_RANGE then Some (CC_ERR_VALUE_NOT_FOUND, ar, out) else None
      | Some (status, Some index) \<Rightarrow>
          if status = CC_ERR_OUT_OF_RANGE then Some (CC_ERR_VALUE_NOT_FOUND, ar, out)
          else (case (if index \<noteq> ar_size ar - 1
                      then memmove (ar_buffer ar) (unat index) (unat (index + 1))
                             (unat (ar_size ar - 1 - index))
                      else Some (ar_buffer ar)) of
                  None \<Rightarrow> None
                | Some b \<Rightarrow>
                    Some (CC_OK, ar\<lparr>ar_buffer := b, ar_size := ar_size ar - 1\<rparr>,
                          (case out of Out_NULL \<Rightarrow> Out_NULL | Out old \<Rightarrow> Out element))))"

definition cc_array_remove_at ::
  "cc_array \<Rightarrow> size_t \<Rightarrow> void_ptr out_slot
     \<Rightarrow> (cc_stat \<times> cc_array \<times> void_ptr out_slot) option" where
  "cc_array_remove_at ar index out =
     (if ar_size ar \<le> index then Some (CC_ERR_OUT_OF_RANGE, ar, out)
      else (case (case out of
                    Out_NULL \<Rightarrow> Some Out_NULL
                  | Out old \<Rightarrow> map_option Out (buf_read (ar_buffer ar) (unat index))) of
              None \<Rightarrow> None
            | Some out' \<Rightarrow>
                (case (if index \<noteq> ar_size ar - 1
                       then memmove (ar_buffer ar) (unat index) (unat (index + 1))
                              (unat (ar_size ar - 1 - index))
                       else Some (ar_buffer ar)) of
                   None \<Rightarrow> None
                 | Some b \<Rightarrow>
                     Some (CC_OK, ar\<lparr>ar_buffer := b, ar_size := ar_size ar - 1\<rparr>, out'))))"

text \<open>\<open>cc_array_get_at\<close> stores through \<open>out\<close> without testing it.\<close>

definition cc_array_get_at ::
  "cc_array \<Rightarrow> size_t \<Rightarrow> void_ptr out_slot \<Rightarrow> (cc_stat \<times> void_ptr out_slot) option" where
  "cc_array_get_at ar index out =
     (if ar_size ar \<le> index then Some (CC_ERR_OUT_OF_RANGE, out)
      else (case out of
              Out_NULL \<Rightarrow> None
            | Out old \<Rightarrow>
                (case buf_read (ar_buffer ar) (unat index) of
                   None \<Rightarrow> None
                 | Some v \<Rightarrow> Some (CC_OK, Out v))))"

text \<open>
  \<open>cc_array_subarray\<close>: the structure comes from \<open>calloc\<close>, so the fields that the
  function does not assign (\<open>exp_factor\<close>) are all-zero bits; the buffer has the
  capacity of the source array.
\<close>

definition cc_array_subarray ::
  "bool \<Rightarrow> bool \<Rightarrow> cc_array \<Rightarrow> size_t \<Rightarrow> size_t \<Rightarrow> (cc_stat \<times> cc_array option) option" where
  "cc_array_subarray ok_ar ok_buff ar b e =
     (if e < b \<or> ar_size ar \<le> e then Some (CC_ERR_INVALID_RANGE, None)
      else if \<not> ok_ar then Some (CC_ERR_ALLOC, None)
      else (case malloc ok_buff (unat (ar_capacity ar)) of
              None \<Rightarrow> Some (CC_ERR_ALLOC, None)
            | Some buff \<Rightarrow>
                (let sub_ar = \<lparr>ar_size = e - b + 1, ar_capacity = e - b + 1,
                               ar_exp_factor = 0, ar_buffer = buff\<rparr>
                 in (case memcpy (ar_buffer sub_ar) (drop (unat b) (ar_buffer ar))
                            (unat (ar_size sub_ar)) of
                       None \<Rightarrow> None
                     | Some buff' \<Rightarrow> Some (CC_OK, Some (sub_ar\<lparr>ar_buffer := buff'\<rparr>))))))"

text \<open>The loop of \<open>cc_array_reverse\<close>, from the index pair \<open>i\<close>, \<open>j\<close>.\<close>

function reverse_loop :: "cc_array \<Rightarrow> size_t \<Rightarrow> size_t \<Rightarrow> cc_array option" where
  "reverse_loop ar i j =
     (if i < ar_size ar div 2
      then (case buf_read (ar_buffer ar) (unat i) of
              None \<Rightarrow> None
            | Some tmp \<Rightarrow>
                (case buf_read (ar_buffer ar) (unat j) of
                   None \<Rightarrow> None
                 | Some vj \<Rightarrow>
                     (case buf_write (ar_buffer ar) (unat i) vj of
                        None \<Rightarrow> None
                      | Some b1 \<Rightarrow>
                          (case buf_write b1 (unat j) tmp of
                             None \<Rightarrow> None
                           | Some b2 \<Rightarrow> reverse_loop (ar\<lparr>ar_buffer := b2\<rparr>) (i + 1) (j - 1)))))
      else Some ar)"
  by pat_completeness auto
termination
proof (relation "measure (\<lambda>(ar, i, j). unat (ar_size ar div 2) - unat i)")
  show "wf (measure (\<lambda>(ar, i, j). unat (ar_size ar div 2) - unat i))"
    by simp
next
  fix ar :: cc_array and i j :: size_t and tmp vj :: void_ptr and b1 b2 :: buffer
  assume lt: "i < ar_size ar div 2"
  then have "unat i < unat (ar_size ar div 2)"
    by (simp add: word_less_nat_alt)
  moreover have "unat (ar_size ar div 2) < 2 ^ 64"
    using unsigned_less [of "ar_size ar div 2"] by simp
  ultimately have "unat i + 1 < 2 ^ 64"
    by linarith
  then have "unat (i + 1) = unat i + 1"
    by (simp add: unat_word_ariths)
  with lt show "((ar\<lparr>ar_buffer := b2\<rparr>, i + 1, j - 1), (ar, i, j))
                  \<in> measure (\<lambda>(ar, i, j). unat (ar_size ar div 2) - unat i)"
    by (simp add: word_less_nat_alt)
qed

declare reverse_loop.simps [simp del]

definition cc_array_reverse :: "cc_array \<Rightarrow> cc_array option" where
  "cc_array_reverse ar =
     (if ar_size ar = 0 then Some ar else reverse_loop ar 0 (ar_size ar - 1))"

text \<open>
  \<open>cc_array_trim_capacity\<close>: the new buffer has \<open>ar->size\<close> slots, the copy is of
  \<open>size = ar->size < 1 ? 1 : ar->size\<close> slots, and the capacity becomes \<open>ar->size\<close>.
\<close>

definition cc_array_trim_capacity :: "bool \<Rightarrow> cc_array \<Rightarrow> (cc_stat \<times> cc_array) option" where
  "cc_array_trim_capacity ok ar =
     (if ar_size ar = ar_capacity ar then Some (CC_OK, ar)
      else (case calloc ok (unat (ar_size ar)) of
              None \<Rightarrow> Some (CC_ERR_ALLOC, ar)
            | Some new_buff \<Rightarrow>
                (let size = (if ar_size ar < 1 then 1 else ar_size ar)
                 in (case memcpy new_buff (ar_buffer ar) (unat size) of
                       None \<Rightarrow> None
                     | Some b \<Rightarrow>
                         Some (CC_OK, ar\<lparr>ar_buffer := b, ar_capacity := ar_size ar\<rparr>)))))"

subsection \<open>Well-formed arrays and their contents\<close>

text \<open>
  The invariant of the data model: the size does not exceed the capacity, the buffer has
  at least \<open>capacity\<close> slots, and the slots below \<open>size\<close> have been written.
\<close>

definition array_wf :: "cc_array \<Rightarrow> bool" where
  "array_wf ar =
     (ar_size ar \<le> ar_capacity ar
      \<and> unat (ar_capacity ar) \<le> length (ar_buffer ar)
      \<and> list_all (\<lambda>slot. slot \<noteq> None) (take (unat (ar_size ar)) (ar_buffer ar)))"

text \<open>The elements of an array, in index order.\<close>

definition array_elems :: "cc_array \<Rightarrow> void_ptr list" where
  "array_elems ar = map the (take (unat (ar_size ar)) (ar_buffer ar))"

text \<open>The status and the capacity that a call leaves behind.\<close>

definition status_capacity :: "(cc_stat \<times> cc_array) option \<Rightarrow> (cc_stat \<times> size_t) option" where
  "status_capacity r = map_option (\<lambda>(status, ar). (status, ar_capacity ar)) r"

text \<open>
  The capacity that \<open>expand_capacity\<close> stores when the scaled capacity is \<open>nc\<close>:
  \<open>if (new_capacity <= ar->capacity) ar->capacity = CC_MAX_ELEMENTS; else ar->capacity = new_capacity;\<close>
\<close>

definition grown_capacity :: "size_t \<Rightarrow> size_t \<Rightarrow> size_t \<Rightarrow> size_t" where
  "grown_capacity CC_MAX_ELEMENTS capacity nc = (if nc \<le> capacity then CC_MAX_ELEMENTS else nc)"

text \<open>Arrays used as concrete inputs.\<close>

definition ar_empty :: cc_array where
  "ar_empty = \<lparr>ar_size = 0, ar_capacity = 8, ar_exp_factor = DEFAULT_EXPANSION_FACTOR,
               ar_buffer = replicate 8 None\<rparr>"

definition ar_full8 :: cc_array where
  "ar_full8 = \<lparr>ar_size = 8, ar_capacity = 8, ar_exp_factor = DEFAULT_EXPANSION_FACTOR,
               ar_buffer = map Some [1, 2, 3, 4, 5, 6, 7, 8]\<rparr>"

definition ar_big :: cc_array where
  "ar_big = \<lparr>ar_size = 16777217, ar_capacity = 16777217,
             ar_exp_factor = DEFAULT_EXPANSION_FACTOR,
             ar_buffer = replicate 16777217 (Some 1)\<rparr>"

definition ar_abcd :: cc_array where
  "ar_abcd = \<lparr>ar_size = 4, ar_capacity = 8, ar_exp_factor = DEFAULT_EXPANSION_FACTOR,
              ar_buffer = [Some 10, Some 11, Some 12, Some 13, None, None, None, None]\<rparr>"

section \<open>The singly-linked list\<close>

text \<open>
  Nodes live in a heap: a partial map from addresses to nodes, undefined where nothing
  is allocated. \<open>SNode\<close> is declared in a header that is not part of the sources; the
  functions use its two fields, \<open>data\<close> and \<open>next\<close>. A list structure is passed and
  returned by value together with the heap. Reading or writing through \<open>NULL\<close> or
  through an address that is not allocated is undefined.
\<close>

type_synonym ptr = "64 word"

abbreviation NULL :: "64 word" where
  "NULL \<equiv> 0"

record snode =
  sn_data :: void_ptr
  sn_next :: ptr

type_synonym heap = "ptr \<Rightarrow> snode option"

record cc_slist =
  sl_size :: size_t
  sl_head :: ptr
  sl_tail :: ptr

definition load :: "heap \<Rightarrow> ptr \<Rightarrow> snode option" where
  "load h p = (if p = NULL then None else h p)"

text \<open>\<open>p->next = q\<close> and \<open>p->data = v\<close>\<close>

definition store_next :: "heap \<Rightarrow> ptr \<Rightarrow> ptr \<Rightarrow> heap option" where
  "store_next h p q =
     (case load h p of None \<Rightarrow> None | Some nd \<Rightarrow> Some (h(p \<mapsto> nd\<lparr>sn_next := q\<rparr>)))"

definition store_data :: "heap \<Rightarrow> ptr \<Rightarrow> void_ptr \<Rightarrow> heap option" where
  "store_data h p v =
     (case load h p of None \<Rightarrow> None | Some nd \<Rightarrow> Some (h(p \<mapsto> nd\<lparr>sn_data := v\<rparr>)))"

text \<open>
  \<open>calloc(1, sizeof(SNode))\<close> returning the address \<open>new\<close>: a zeroed node. The address
  is chosen by the allocator and is an argument of every function that allocates a node;
  \<open>NULL\<close> stands for a failed allocation, any other address is one that was not
  allocated before.
\<close>

definition calloc_node :: "heap \<Rightarrow> ptr \<Rightarrow> heap" where
  "calloc_node h new = h(new \<mapsto> \<lparr>sn_data = NULL, sn_next = NULL\<rparr>)"

definition free_node :: "heap \<Rightarrow> ptr \<Rightarrow> heap option" where
  "free_node h p = (case load h p of None \<Rightarrow> None | Some nd \<Rightarrow> Some (h(p := None)))"

definition cc_slist_new :: "bool \<Rightarrow> cc_stat \<times> cc_slist option" where
  "cc_slist_new ok =
     (if \<not> ok then (CC_ERR_ALLOC, None)
      else (CC_OK, Some \<lparr>sl_size = 0, sl_head = NULL, sl_tail = NULL\<rparr>))"

definition cc_slist_add_first ::
  "heap \<Rightarrow> cc_slist \<Rightarrow> void_ptr \<Rightarrow> ptr \<Rightarrow> (cc_stat \<times> heap \<times> cc_slist) option" where
  "cc_slist_add_first h list element new =
     (if new = NULL then Some (CC_ERR_ALLOC, h, list)
      else (case store_data (calloc_node h new) new element of
              None \<Rightarrow> None
            | Some h1 \<Rightarrow>
                if sl_size list = 0
                then Some (CC_OK, h1, list\<lparr>sl_head := new, sl_tail := new,
                                            sl_size := sl_size list + 1\<rparr>)
                else (case store_next h1 new (sl_head list) of
                        None \<Rightarrow> None
                      | Some h2 \<Rightarrow>
                          Some (CC_OK, h2, list\<lparr>sl_head := new,
                                                 sl_size := sl_size list + 1\<rparr>))))"

definition cc_slist_add_last ::
  "heap \<Rightarrow> cc_slist \<Rightarrow> void_ptr \<Rightarrow> ptr \<Rightarrow> (cc_stat \<times> heap \<times> cc_slist) option" where
  "cc_slist_add_last h list element new =
     (if new = NULL then Some (CC_ERR_ALLOC, h, list)
      else (case store_data (calloc_node h new) new element of
              None \<Rightarrow> None
            | Some h1 \<Rightarrow>
                if sl_size list = 0
                then Some (CC_OK, h1, list\<lparr>sl_head := new, sl_tail := new,
                                            sl_size := sl_size list + 1\<rparr>)
                else (case store_next h1 (sl_tail list) new of
                        None \<Rightarrow> None
                      | Some h2 \<Rightarrow>
                          Some (CC_OK, h2, list\<lparr>sl_tail := new,
                                                 sl_size := sl_size list + 1\<rparr>))))"

text \<open>
  The loop of \<open>get_node_at\<close>, from counter \<open>i\<close>. The result carries the final
  \<open>*node\<close> and \<open>*prev\<close>.
\<close>

function get_node_at_loop ::
  "heap \<Rightarrow> size_t \<Rightarrow> size_t \<Rightarrow> ptr \<Rightarrow> ptr \<Rightarrow> (cc_stat \<times> ptr \<times> ptr) option" where
  "get_node_at_loop h index i node prev =
     (if i < index
      then (case load h node of
              None \<Rightarrow> None
            | Some nd \<Rightarrow> get_node_at_loop h index (i + 1) (sn_next nd) node)
      else Some (CC_OK, node, prev))"
  by pat_completeness auto
termination
proof (relation "measure (\<lambda>(h, index, i, node, prev). unat index - unat i)")
  show "wf (measure (\<lambda>(h, index, i, node, prev). unat index - unat i))"
    by simp
next
  fix h :: heap and index i :: size_t and node prev :: ptr and nd :: snode
  assume lt: "i < index"
  then have "unat i < unat index"
    by (simp add: word_less_nat_alt)
  moreover have "unat index < 2 ^ 64"
    using unsigned_less [of index] by simp
  ultimately have "unat i + 1 < 2 ^ 64"
    by linarith
  then have "unat (i + 1) = unat i + 1"
    by (simp add: unat_word_ariths)
  with lt show "((h, index, i + 1, sn_next nd, node), (h, index, i, node, prev))
                  \<in> measure (\<lambda>(h, index, i, node, prev). unat index - unat i)"
    by (simp add: word_less_nat_alt)
qed

declare get_node_at_loop.simps [simp del]

text \<open>
  \<open>get_node_at\<close>; \<open>node\<close> and \<open>prev\<close> are the values that the caller's variables
  hold, which stay when the index is out of range.
\<close>

definition get_node_at ::
  "heap \<Rightarrow> cc_slist \<Rightarrow> size_t \<Rightarrow> ptr \<Rightarrow> ptr \<Rightarrow> (cc_stat \<times> ptr \<times> ptr) option" where
  "get_node_at h list index node prev =
     (if sl_size list \<le> index then Some (CC_ERR_OUT_OF_RANGE, node, prev)
      else get_node_at_loop h index 0 (sl_head list) NULL)"

text \<open>The loop of \<open>get_node\<close>; it need not terminate on a cyclic chain.\<close>

partial_function (option) get_node_loop ::
  "heap \<Rightarrow> void_ptr \<Rightarrow> ptr \<Rightarrow> ptr \<Rightarrow> (cc_stat \<times> ptr \<times> ptr) option" where
  "get_node_loop h element node prev =
     (if node = NULL then Some (CC_ERR_VALUE_NOT_FOUND, node, prev)
      else (case h node of
              None \<Rightarrow> None
            | Some nd \<Rightarrow>
                if sn_data nd = element then Some (CC_OK, node, prev)
                else get_node_loop h element (sn_next nd) node))"

definition get_node ::
  "heap \<Rightarrow> cc_slist \<Rightarrow> void_ptr \<Rightarrow> (cc_stat \<times> ptr \<times> ptr) option" where
  "get_node h list element = get_node_loop h element (sl_head list) NULL"

definition cc_slist_add_at ::
  "heap \<Rightarrow> cc_slist \<Rightarrow> void_ptr \<Rightarrow> size_t \<Rightarrow> ptr \<Rightarrow> (cc_stat \<times> heap \<times> cc_slist) option" where
  "cc_slist_add_at h list element index new =
     (case get_node_at h list index NULL NULL of
        None \<Rightarrow> None
      | Some (status, node, prev) \<Rightarrow>
          if status \<noteq> CC_OK then Some (status, h, list)
          else if new = NULL then Some (CC_ERR_ALLOC, h, list)
          else (case store_data (calloc_node h new) new element of
                  None \<Rightarrow> None
                | Some h1 \<Rightarrow>
                    if prev = NULL
                    then (case store_next h1 new (sl_head list) of
                            None \<Rightarrow> None
                          | Some h2 \<Rightarrow>
                              Some (CC_OK, h2, list\<lparr>sl_head := new,
                                                     sl_size := sl_size list + 1\<rparr>))
                    else (case load h1 prev of
                            None \<Rightarrow> None
                          | Some pn \<Rightarrow>
                              (case store_next h1 prev new of
                                 None \<Rightarrow> None
                               | Some h2 \<Rightarrow>
                                   (case store_next h2 new (sn_next pn) of
                                      None \<Rightarrow> None
                                    | Some h3 \<Rightarrow>
                                        Some (CC_OK, h3,
                                              list\<lparr>sl_size := sl_size list + 1\<rparr>))))))"

text \<open>\<open>cc_slist_splice\<close> returns the heap and both list structures.\<close>

definition cc_slist_splice ::
  "heap \<Rightarrow> cc_slist \<Rightarrow> cc_slist \<Rightarrow> (cc_stat \<times> heap \<times> cc_slist \<times> cc_slist) option" where
  "cc_slist_splice h list1 list2 =
     (if sl_size list2 = 0 then Some (CC_OK, h, list1, list2)
      else (case (if sl_size list1 = 0
                  then Some (h, list1\<lparr>sl_head := sl_head list2, sl_tail := sl_tail list2\<rparr>)
                  else (case store_next h (sl_tail list1) (sl_head list2) of
                          None \<Rightarrow> None
                        | Some h1 \<Rightarrow> Some (h1, list1\<lparr>sl_tail := sl_tail list2\<rparr>))) of
              None \<Rightarrow> None
            | Some (h1, l1) \<Rightarrow>
                Some (CC_OK, h1, l1\<lparr>sl_size := sl_size l1 + sl_size list2\<rparr>,
                      list2\<lparr>sl_head := NULL, sl_tail := NULL, sl_size := 0\<rparr>)))"

text \<open>\<open>unlinkn\<close> returns the data of the node, the heap and the list.\<close>

definition unlinkn ::
  "heap \<Rightarrow> cc_slist \<Rightarrow> ptr \<Rightarrow> ptr \<Rightarrow> (void_ptr \<times> heap \<times> cc_slist) option" where
  "unlinkn h list node prev =
     (case load h node of
        None \<Rightarrow> None
      | Some nd \<Rightarrow>
          (case (if prev \<noteq> NULL
                 then (case store_next h prev (sn_next nd) of
                         None \<Rightarrow> None
                       | Some h1 \<Rightarrow> Some (h1, list))
                 else Some (h, list\<lparr>sl_head := sn_next nd\<rparr>)) of
             None \<Rightarrow> None
           | Some (h1, l1) \<Rightarrow>
               (case load h1 node of
                  None \<Rightarrow> None
                | Some nd1 \<Rightarrow>
                    (let l2 = (if sn_next nd1 = NULL then l1\<lparr>sl_tail := prev\<rparr> else l1)
                     in (case free_node h1 node of
                           None \<Rightarrow> None
                         | Some h2 \<Rightarrow>
                             Some (sn_data nd, h2, l2\<lparr>sl_size := sl_size l2 - 1\<rparr>))))))"

text \<open>
  The loop of \<open>unlinkn_all\<close>. The callback \<open>cb\<close> acts on the element a node refers to,
  not on the nodes or the list, and does not appear in the model.
\<close>

partial_function (option) unlinkn_all_loop ::
  "heap \<Rightarrow> cc_slist \<Rightarrow> ptr \<Rightarrow> (heap \<times> cc_slist) option" where
  "unlinkn_all_loop h list n =
     (if n = NULL then Some (h, list)
      else (case h n of
              None \<Rightarrow> None
            | Some nd \<Rightarrow>
                unlinkn_all_loop (h(n := None)) (list\<lparr>sl_size := sl_size list - 1\<rparr>)
                  (sn_next nd)))"

definition unlinkn_all :: "heap \<Rightarrow> cc_slist \<Rightarrow> (bool \<times> heap \<times> cc_slist) option" where
  "unlinkn_all h list =
     (if sl_size list = 0 then Some (False, h, list)
      else (case unlinkn_all_loop h list (sl_head list) of
              None \<Rightarrow> None
            | Some (h1, l1) \<Rightarrow> Some (True, h1, l1)))"

definition cc_slist_remove ::
  "heap \<Rightarrow> cc_slist \<Rightarrow> void_ptr \<Rightarrow> void_ptr out_slot
     \<Rightarrow> (cc_stat \<times> heap \<times> cc_slist \<times> void_ptr out_slot) option" where
  "cc_slist_remove h list element out =
     (case get_node h list element of
        None \<Rightarrow> None
      | Some (status, node, prev) \<Rightarrow>
          if status \<noteq> CC_OK then Some (status, h, list, out)
          else (case unlinkn h list node prev of
                  None \<Rightarrow> None
                | Some (val, h1, l1) \<Rightarrow>
                    Some (CC_OK, h1, l1,
                          (case out of Out_NULL \<Rightarrow> Out_NULL | Out old \<Rightarrow> Out val))))"

definition cc_slist_remove_at ::
  "heap \<Rightarrow> cc_slist \<Rightarrow> size_t \<Rightarrow> void_ptr out_slot
     \<Rightarrow> (cc_stat \<times> heap \<times> cc_slist \<times> void_ptr out_slot) option" where
  "cc_slist_remove_at h list index out =
     (case get_node_at h list index NULL NULL of
        None \<Rightarrow> None
      | Some (status, node, prev) \<Rightarrow>
          if status \<noteq> CC_OK then Some (status, h, list, out)
          else (case unlinkn h list node prev of
                  None \<Rightarrow> None
                | Some (e, h1, l1) \<Rightarrow>
                    Some (CC_OK, h1, l1,
                          (case out of Out_NULL \<Rightarrow> Out_NULL | Out old \<Rightarrow> Out e))))"

definition cc_slist_remove_first ::
  "heap \<Rightarrow> cc_slist \<Rightarrow> void_ptr out_slot
     \<Rightarrow> (cc_stat \<times> heap \<times> cc_slist \<times> void_ptr out_slot) option" where
  "cc_slist_remove_first h list out =
     (if sl_size list = 0 then Some (CC_ERR_VALUE_NOT_FOUND, h, list, out)
      else (case unlinkn h list (sl_head list) NULL of
              None \<Rightarrow> None
            | Some (e, h1, l1) \<Rightarrow>
                Some (CC_OK, h1, l1,
                      (case out of Out_NULL \<Rightarrow> Out_NULL | Out old \<Rightarrow> Out e))))"

definition cc_slist_remove_all :: "heap \<Rightarrow> cc_slist \<Rightarrow> (cc_stat \<times> heap \<times> cc_slist) option" where
  "cc_slist_remove_all h list =
     (case unlinkn_all h list of
        None \<Rightarrow> None
      | Some (unlinked, h1, l1) \<Rightarrow>
          if unlinked then Some (CC_OK, h1, l1\<lparr>sl_head := NULL, sl_tail := NULL\<rparr>)
          else Some (CC_ERR_VALUE_NOT_FOUND, h1, l1))"

definition cc_slist_remove_all_cb :: "heap \<Rightarrow> cc_slist \<Rightarrow> (cc_stat \<times> heap \<times> cc_slist) option" where
  "cc_slist_remove_all_cb h list =
     (case unlinkn_all h list of
        None \<Rightarrow> None
      | Some (unlinked, h1, l1) \<Rightarrow>
          if unlinked then Some (CC_OK, h1, l1\<lparr>sl_head := NULL, sl_tail := NULL\<rparr>)
          else Some (CC_ERR_VALUE_NOT_FOUND, h1, l1))"

definition cc_slist_replace_at ::
  "heap \<Rightarrow> cc_slist \<Rightarrow> void_ptr \<Rightarrow> size_t \<Rightarrow> void_ptr out_slot
     \<Rightarrow> (cc_stat \<times> heap \<times> cc_slist \<times> void_ptr out_slot) option" where
  "cc_slist_replace_at h list element index out =
     (case get_node_at h list index NULL NULL of
        None \<Rightarrow> None
      | Some (status, node, prev) \<Rightarrow>
          if status \<noteq> CC_OK then Some (status, h, list, out)
          else (case load h node of
                  None \<Rightarrow> None
                | Some nd \<Rightarrow>
                    (case store_data h node element of
                       None \<Rightarrow> None
                     | Some h1 \<Rightarrow>
                         Some (CC_OK, h1, list,
                               (case out of Out_NULL \<Rightarrow> Out_NULL
                                | Out old \<Rightarrow> Out (sn_data nd))))))"

text \<open>\<open>cc_slist_get_at\<close> stores through \<open>out\<close> without testing it.\<close>

definition cc_slist_get_at ::
  "heap \<Rightarrow> cc_slist \<Rightarrow> size_t \<Rightarrow> void_ptr out_slot \<Rightarrow> (cc_stat \<times> void_ptr out_slot) option" where
  "cc_slist_get_at h list index out =
     (case get_node_at h list index NULL NULL of
        None \<Rightarrow> None
      | Some (status, node, prev) \<Rightarrow>
          if status \<noteq> CC_OK then Some (status, out)
          else (case load h node of
                  None \<Rightarrow> None
                | Some nd \<Rightarrow>
                    (case out of
                       Out_NULL \<Rightarrow> None
                     | Out old \<Rightarrow> Some (CC_OK, Out (sn_data nd)))))"

text \<open>
  The loop of \<open>cc_slist_reverse\<close>, from \<open>flip\<close> and \<open>prev\<close>; it returns the heap and
  the final \<open>prev\<close>.
\<close>

partial_function (option) slist_reverse_loop ::
  "heap \<Rightarrow> ptr \<Rightarrow> ptr \<Rightarrow> (heap \<times> ptr) option" where
  "slist_reverse_loop h flip prev =
     (if flip = NULL then Some (h, prev)
      else (case h flip of
              None \<Rightarrow> None
            | Some nd \<Rightarrow>
                slist_reverse_loop (h(flip \<mapsto> nd\<lparr>sn_next := prev\<rparr>)) (sn_next nd) flip))"

definition cc_slist_reverse :: "heap \<Rightarrow> cc_slist \<Rightarrow> (heap \<times> cc_slist) option" where
  "cc_slist_reverse h list =
     (if sl_size list = 0 \<or> sl_size list = 1 then Some (h, list)
      else (case slist_reverse_loop h (sl_head list) NULL of
              None \<Rightarrow> None
            | Some (h1, prev) \<Rightarrow>
                Some (h1, list\<lparr>sl_tail := sl_head list, sl_head := prev\<rparr>)))"

text \<open>
  \<open>cc_slist_copy_shallow\<close>. \<open>ok\<close> says whether the new list structure can be
  allocated; \<open>news\<close> are the addresses that the successive node allocations return,
  \<open>NULL\<close> once the list is used up. When an allocation fails the copy built so far is
  destroyed.
\<close>

partial_function (option) copy_shallow_loop ::
  "heap \<Rightarrow> cc_slist \<Rightarrow> ptr \<Rightarrow> ptr list \<Rightarrow> (cc_stat \<times> heap \<times> cc_slist option) option" where
  "copy_shallow_loop h copy node news =
     (if node = NULL then Some (CC_OK, h, Some copy)
      else (case h node of
              None \<Rightarrow> None
            | Some nd \<Rightarrow>
                (case cc_slist_add_last h copy (sn_data nd)
                        (case news of [] \<Rightarrow> NULL | new # rest \<Rightarrow> new) of
                   None \<Rightarrow> None
                 | Some (status, h1, copy1) \<Rightarrow>
                     if status \<noteq> CC_OK
                     then (case cc_slist_remove_all h1 copy1 of
                             None \<Rightarrow> None
                           | Some (s, h2, copy2) \<Rightarrow> Some (status, h2, None))
                     else (case load h1 node of
                             None \<Rightarrow> None
                           | Some nd1 \<Rightarrow>
                               copy_shallow_loop h1 copy1 (sn_next nd1) (tl news)))))"

definition cc_slist_copy_shallow ::
  "bool \<Rightarrow> ptr list \<Rightarrow> heap \<Rightarrow> cc_slist \<Rightarrow> (cc_stat \<times> heap \<times> cc_slist option) option" where
  "cc_slist_copy_shallow ok news h list =
     (case cc_slist_new ok of
        (status, None) \<Rightarrow> Some (status, h, None)
      | (status, Some copy) \<Rightarrow>
          if status \<noteq> CC_OK then Some (status, h, None)
          else copy_shallow_loop h copy (sl_head list) news)"

subsection \<open>The structural invariant and the contents of a list\<close>

text \<open>\<open>walk h n p\<close> follows \<open>n\<close> forward links from \<open>p\<close>.\<close>

fun walk :: "heap \<Rightarrow> nat \<Rightarrow> ptr \<Rightarrow> ptr option" where
  "walk h 0 p = Some p"
| "walk h (Suc n) p = (case load h p of None \<Rightarrow> None | Some nd \<Rightarrow> walk h n (sn_next nd))"

text \<open>
  The invariant as the specification words it: the size is 0 exactly when head and tail
  are both none; in a non-empty list \<open>size - 1\<close> forward links lead from the head to the
  tail, and the forward link of the tail is none.
\<close>

definition slist_inv :: "heap \<Rightarrow> cc_slist \<Rightarrow> bool" where
  "slist_inv h l =
     ((sl_size l = 0 \<longleftrightarrow> sl_head l = NULL \<and> sl_tail l = NULL)
      \<and> (sl_size l \<noteq> 0 \<longrightarrow>
            walk h (unat (sl_size l) - 1) (sl_head l) = Some (sl_tail l)
            \<and> map_option sn_next (load h (sl_tail l)) = Some NULL))"

text \<open>\<open>lseg h p ns q\<close>: the nodes \<open>ns\<close> are linked in this order from \<open>p\<close>, and the last links to \<open>q\<close>.\<close>

fun lseg :: "heap \<Rightarrow> ptr \<Rightarrow> ptr list \<Rightarrow> ptr \<Rightarrow> bool" where
  "lseg h p [] q = (p = q)"
| "lseg h p (a # as) q =
     (p = a \<and> (case load h a of None \<Rightarrow> False | Some nd \<Rightarrow> lseg h (sn_next nd) as q))"

text \<open>A list whose nodes are \<open>ns\<close>, in order.\<close>

definition slist_abs :: "heap \<Rightarrow> cc_slist \<Rightarrow> ptr list \<Rightarrow> bool" where
  "slist_abs h l ns =
     (lseg h (sl_head l) ns NULL
      \<and> sl_size l = of_nat (length ns)
      \<and> sl_tail l = (if ns = [] then NULL else last ns))"

text \<open>The first \<open>n\<close> nodes from \<open>p\<close>, the nodes of a list and its elements.\<close>

fun chain :: "heap \<Rightarrow> nat \<Rightarrow> ptr \<Rightarrow> ptr list" where
  "chain h 0 p = []"
| "chain h (Suc n) p =
     (case load h p of None \<Rightarrow> [] | Some nd \<Rightarrow> p # chain h n (sn_next nd))"

definition slist_nodes :: "heap \<Rightarrow> cc_slist \<Rightarrow> ptr list" where
  "slist_nodes h l = chain h (unat (sl_size l)) (sl_head l)"

definition node_data :: "heap \<Rightarrow> ptr \<Rightarrow> void_ptr" where
  "node_data h p = (case h p of None \<Rightarrow> NULL | Some nd \<Rightarrow> sn_data nd)"

definition slist_elems :: "heap \<Rightarrow> cc_slist \<Rightarrow> void_ptr list" where
  "slist_elems h l = map (node_data h) (slist_nodes h l)"

text \<open>What a call leaves in an output slot: the slot stays null when the caller passed none.\<close>

definition put_out :: "void_ptr out_slot \<Rightarrow> void_ptr \<Rightarrow> void_ptr out_slot" where
  "put_out out v = (case out of Out_NULL \<Rightarrow> Out_NULL | Out old \<Rightarrow> Out v)"

text \<open>A call returns, and the list it returns satisfies the invariant in the heap it returns.\<close>

definition keeps_inv :: "(cc_stat \<times> heap \<times> cc_slist) option \<Rightarrow> bool" where
  "keeps_inv r = (case r of None \<Rightarrow> False | Some (status, h', l') \<Rightarrow> slist_inv h' l')"

definition keeps_inv_out ::
  "(cc_stat \<times> heap \<times> cc_slist \<times> void_ptr out_slot) option \<Rightarrow> bool" where
  "keeps_inv_out r =
     (case r of None \<Rightarrow> False | Some (status, h', l', out') \<Rightarrow> slist_inv h' l')"

text \<open>Heaps and lists used as concrete inputs: the list of the nodes 1, 2, 3 and the list of the node 5.\<close>

definition heap_abc :: heap where
  "heap_abc = (\<lambda>p. None)
     (1 \<mapsto> \<lparr>sn_data = 10, sn_next = 2\<rparr>,
      2 \<mapsto> \<lparr>sn_data = 11, sn_next = 3\<rparr>,
      3 \<mapsto> \<lparr>sn_data = 12, sn_next = NULL\<rparr>,
      5 \<mapsto> \<lparr>sn_data = 20, sn_next = NULL\<rparr>)"

definition list_abc :: cc_slist where
  "list_abc = \<lparr>sl_size = 3, sl_head = 1, sl_tail = 3\<rparr>"

definition list_d :: cc_slist where
  "list_d = \<lparr>sl_size = 1, sl_head = 5, sl_tail = 5\<rparr>"

definition list_empty :: cc_slist where
  "list_empty = \<lparr>sl_size = 0, sl_head = NULL, sl_tail = NULL\<rparr>"

section \<open>Properties of the dynamic array\<close>

subsection \<open>The growth computation\<close>

lemma bitlen_le: "m < 2 ^ n \<Longrightarrow> bitlen m \<le> n"
proof (induction n arbitrary: m)
  case 0
  then show ?case by (simp add: bitlen.simps)
next
  case (Suc n)
  show ?case
  proof (cases "m = 0")
    case True
    then show ?thesis by (simp add: bitlen.simps)
  next
    case False
    from Suc.prems have "m div 2 < 2 ^ n" by simp
    then have "bitlen (m div 2) \<le> n" by (rule Suc.IH)
    with False show ?thesis by (subst bitlen.simps) simp
  qed
qed

lemma round_even_exact: "2 ^ k dvd m \<Longrightarrow> round_even m k = m div 2 ^ k"
  by (simp add: round_even_def Let_def mod_eq_0_iff_dvd)

lemma fp_trunc_shift:
  assumes "2 ^ k dvd m"
  shows "fp_trunc (m div 2 ^ k) (e + int k) = fp_trunc m e"
proof -
  from assms obtain q where m: "m = 2 ^ k * q" by (auto elim: dvdE)
  have div: "m div 2 ^ k = q" by (simp add: m)
  consider "0 \<le> e" | "e < 0" "0 \<le> e + int k" | "e + int k < 0" by linarith
  then show ?thesis
  proof cases
    case 1
    then have "nat (e + int k) = nat e + k" by simp
    with 1 show ?thesis by (simp add: fp_trunc_def div m power_add)
  next
    case 2
    then have k: "k = nat (- e) + nat (e + int k)" by simp
    have "m = 2 ^ nat (- e) * (2 ^ nat (e + int k) * q)"
      by (subst m, subst k) (simp add: power_add)
    then have "m div 2 ^ nat (- e) = 2 ^ nat (e + int k) * q" by simp
    with 2 show ?thesis by (simp add: fp_trunc_def div)
  next
    case 3
    then have j: "nat (- e) = k + nat (- (e + int k))" by simp
    have "m div 2 ^ nat (- e) = q div 2 ^ nat (- (e + int k))"
      by (subst j) (simp add: m power_add)
    with 3 show ?thesis by (simp add: fp_trunc_def div)
  qed
qed

lemma float_decode_default: "float_decode DEFAULT_EXPANSION_FACTOR = Fin False (2 ^ 23) (- 22)"
  by (simp add: float_decode_def DEFAULT_EXPANSION_FACTOR_def)

lemma float_of_size_small:
  assumes "unat c < 2 ^ 24"
  shows "float_of_size c = Fin False (unat c) 0"
proof -
  have "bitlen (unat c) \<le> 24" using assms by (rule bitlen_le)
  then have k: "nat (max (int (bitlen (unat c)) - 24) (- 149 - 0)) = 0" by simp
  have "unat c * 2 ^ 149 < 2 ^ 24 * 2 ^ 149" using assms by simp
  then have "\<not> 2 ^ 277 \<le> unat c * 2 ^ 149" by simp
  then show ?thesis
    unfolding float_of_size_def fp_round_def Let_def k by (simp add: round_even_def)
qed

lemma scaled_capacity_default:
  assumes "unat c < 2 ^ 24"
  shows "scaled_capacity c DEFAULT_EXPANSION_FACTOR = Some (2 * c)"
proof -
  define m where "m = unat c"
  define M where "M = m * 2 ^ 23"
  define k where "k = nat (max (int (bitlen M) - 24) (- 149 - (- 22)))"
  have m: "m < 2 ^ 24" using assms by (simp add: m_def)
  then have "M < 2 ^ 47" by (simp add: M_def)
  then have "bitlen M \<le> 47" by (rule bitlen_le)
  then have k23: "k \<le> 23" by (simp add: k_def)
  then have "(2::nat) ^ k dvd 2 ^ 23"
    by (rule le_imp_power_dvd)
  then have dvd: "2 ^ k dvd M"
    unfolding M_def by (rule dvd_mult)
  have "M div 2 ^ k * 2 ^ (127 + k) = (M div 2 ^ k * 2 ^ k) * 2 ^ 127"
    by (simp add: power_add)
  also have "\<dots> \<le> M * 2 ^ 127" by simp
  also have "\<dots> < 2 ^ 47 * 2 ^ 127" using \<open>M < 2 ^ 47\<close> by simp
  finally have "M div 2 ^ k * 2 ^ (127 + k) < 2 ^ 277" by simp
  moreover have "nat (- 22 + int k + 149) = 127 + k" by simp
  ultimately have no_inf: "\<not> 2 ^ 277 \<le> M div 2 ^ k * 2 ^ nat (- 22 + int k + 149)" by simp
  have round: "fp_round False M (- 22) = Fin False (M div 2 ^ k) (- 22 + int k)"
    using no_inf unfolding fp_round_def Let_def k_def [symmetric] round_even_exact [OF dvd]
    by simp
  have "fp_trunc (M div 2 ^ k) (- 22 + int k) = fp_trunc M (- 22)"
    by (rule fp_trunc_shift [OF dvd])
  also have "\<dots> = 2 * m" by (simp add: fp_trunc_def M_def)
  finally have trunc: "fp_trunc (M div 2 ^ k) (- 22 + int k) = 2 * m" .
  have "2 * m < 2 ^ 64" using m by simp
  then have "size_of_float (Fin False (M div 2 ^ k) (- 22 + int k)) = Some (of_nat (2 * m))"
    unfolding size_of_float.simps Let_def trunc by simp
  moreover have "(of_nat (2 * m) :: size_t) = 2 * c" by (simp add: m_def)
  moreover have "fp_mul (float_of_size c) (float_decode DEFAULT_EXPANSION_FACTOR)
                   = fp_round False M (- 22)"
    by (simp add: float_of_size_small [OF assms] float_decode_default M_def m_def)
  ultimately show ?thesis
    by (simp add: scaled_capacity_def round)
qed

text \<open>The capacity that \<open>expand_capacity\<close> stores for a scaled capacity \<open>nc\<close>.\<close>

lemma round_even_le: "round_even m k \<le> m + 1"
proof -
  define q where "q = m div 2 ^ k"
  have "q \<le> m" unfolding q_def by (rule div_le_dividend)
  then show ?thesis
    unfolding round_even_def Let_def q_def [symmetric] by simp
qed

lemma float_of_size_finite: "\<exists>m' k. float_of_size c = Fin False m' (int k)"
proof -
  define m where "m = unat c"
  define k where "k = nat (max (int (bitlen m) - 24) (- 149 - 0))"
  have m: "m < 2 ^ 64" using unsigned_less [of c] by (simp add: m_def)
  then have "bitlen m \<le> 64" by (rule bitlen_le)
  then have k: "k \<le> 40" by (simp add: k_def)
  have "round_even m k \<le> m + 1" by (rule round_even_le)
  with m have r: "round_even m k \<le> 2 ^ 64" by simp
  have "(2::nat) ^ (k + 149) \<le> 2 ^ 189"
    using k by (intro power_increasing) simp_all
  with r have "round_even m k * 2 ^ (k + 149) \<le> 2 ^ 64 * 2 ^ 189"
    by (rule mult_le_mono)
  also have "\<dots> < (2::nat) ^ 277" by simp
  finally have "\<not> 2 ^ 277 \<le> round_even m k * 2 ^ nat (0 + int k + 149)"
    by (simp add: nat_add_distrib)
  then have "float_of_size c = Fin False (round_even m k) (int k)"
    unfolding float_of_size_def fp_round_def Let_def m_def [symmetric] k_def [symmetric]
    by simp
  then show ?thesis by blast
qed

lemma float_decode_zero: "float_decode 0 = Fin False 0 (- 149)"
  by (simp add: float_decode_def)

lemma scaled_capacity_zero: "scaled_capacity c 0 = Some 0"
proof -
  obtain m' k where f: "float_of_size c = Fin False m' (int k)"
    using float_of_size_finite by blast
  have "nat (max (int (bitlen 0) - 24) (- 149 - (int k + - 149))) = 0"
    by (simp add: bitlen.simps)
  then have "fp_round False 0 (int k + - 149) = Fin False 0 (int k + - 149)"
    unfolding fp_round_def Let_def by (simp add: round_even_def)
  then show ?thesis
    by (simp add: scaled_capacity_def f float_decode_zero fp_trunc_def)
qed

lemma scaled_capacity_default_big:
  "scaled_capacity 16777217 DEFAULT_EXPANSION_FACTOR = Some 33554432"
  by (simp add: scaled_capacity_def float_of_size_def float_decode_def
        DEFAULT_EXPANSION_FACTOR_def fp_round_def round_even_def fp_trunc_def bitlen.simps Let_def)

subsection \<open>Growing the buffer\<close>

lemma unat_succ_less:
  assumes "(i::size_t) < s" shows "unat (i + 1) = unat i + 1"
proof -
  have "unat i < unat s" using assms by (simp add: word_less_nat_alt)
  moreover have "unat s < 2 ^ 64" using unsigned_less [of s] by simp
  ultimately have "unat i + 1 < 2 ^ 64" by linarith
  then show ?thesis by (simp add: unat_word_ariths)
qed

lemma slots_mult: "slots (n * sizeof_ptr) = unat n mod 2 ^ 61"
proof -
  have "unat (n * 8) = unat n * 8 mod (2 ^ 61 * 8)"
    by (simp add: unat_word_ariths)
  also have "\<dots> = unat n mod 2 ^ 61 * 8"
    by (rule mod_mult_mult2)
  finally show ?thesis by (simp add: slots_def sizeof_ptr_def)
qed

lemma slots_small: "unat n < 2 ^ 61 \<Longrightarrow> slots (n * sizeof_ptr) = unat n"
  by (simp add: slots_mult)

lemma slots_less: "slots (n * sizeof_ptr) < 2 ^ 61"
  by (simp add: slots_mult)

lemma slots_le: "slots (n * sizeof_ptr) \<le> unat n"
  by (simp add: slots_mult)

lemma slots_above: "m < slots (n * sizeof_ptr) \<Longrightarrow> unat s \<le> m \<Longrightarrow> slots (s * sizeof_ptr) = unat s"
  using slots_less [of n] by (simp add: slots_mult)

lemma expand_capacity_at_max:
  "ar_capacity ar = MX \<Longrightarrow> expand_capacity MX ok ar = Some (CC_ERR_MAX_CAPACITY, ar)"
  by (simp add: expand_capacity_def)

lemma grown_capacity_greater:
  "c \<le> MX \<Longrightarrow> c \<noteq> MX \<Longrightarrow> c < grown_capacity MX c nc"
  by (auto simp: grown_capacity_def)

lemma expand_capacity_undefined:
  "ar_capacity ar \<noteq> MX \<Longrightarrow> scaled_capacity (ar_capacity ar) (ar_exp_factor ar) = None
   \<Longrightarrow> expand_capacity MX ok ar = None"
  by (simp add: expand_capacity_def)

lemma expand_capacity_alloc_fails:
  "ar_capacity ar \<noteq> MX \<Longrightarrow> scaled_capacity (ar_capacity ar) (ar_exp_factor ar) = Some nc
   \<Longrightarrow> expand_capacity MX False ar
       = Some (CC_ERR_ALLOC, ar\<lparr>ar_capacity := grown_capacity MX (ar_capacity ar) nc\<rparr>)"
  by (simp add: expand_capacity_def grown_capacity_def malloc_def Let_def)

text \<open>
  When the allocation succeeds, the new buffer has \<open>slots (capacity * sizeof_ptr)\<close>
  slots and receives \<open>slots (size * sizeof_ptr)\<close> of the old ones.
\<close>

lemma expand_capacity_alloc_ok:
  assumes "ar_capacity ar \<noteq> MX"
    and "scaled_capacity (ar_capacity ar) (ar_exp_factor ar) = Some nc"
  shows "expand_capacity MX True ar =
     (if slots (ar_size ar * sizeof_ptr) \<le> slots (grown_capacity MX (ar_capacity ar) nc * sizeof_ptr)
         \<and> slots (ar_size ar * sizeof_ptr) \<le> length (ar_buffer ar)
      then Some (CC_OK, ar\<lparr>ar_capacity := grown_capacity MX (ar_capacity ar) nc,
                   ar_buffer := take (slots (ar_size ar * sizeof_ptr)) (ar_buffer ar)
                      @ replicate (slots (grown_capacity MX (ar_capacity ar) nc * sizeof_ptr)
                                    - slots (ar_size ar * sizeof_ptr)) None\<rparr>)
      else None)"
  using assms
  by (simp add: expand_capacity_def grown_capacity_def malloc_def memcpy_def Let_def)

lemma expand_capacity_eq:
  "expand_capacity MX ok ar =
     (if ar_capacity ar = MX then Some (CC_ERR_MAX_CAPACITY, ar)
      else (case scaled_capacity (ar_capacity ar) (ar_exp_factor ar) of
              None \<Rightarrow> None
            | Some nc \<Rightarrow>
                if ok
                then if slots (ar_size ar * sizeof_ptr)
                          \<le> slots (grown_capacity MX (ar_capacity ar) nc * sizeof_ptr)
                        \<and> slots (ar_size ar * sizeof_ptr) \<le> length (ar_buffer ar)
                     then Some (CC_OK, ar\<lparr>ar_capacity := grown_capacity MX (ar_capacity ar) nc,
                            ar_buffer := take (slots (ar_size ar * sizeof_ptr)) (ar_buffer ar)
                               @ replicate (slots (grown_capacity MX (ar_capacity ar) nc * sizeof_ptr)
                                             - slots (ar_size ar * sizeof_ptr)) None\<rparr>)
                     else None
                else Some (CC_ERR_ALLOC,
                           ar\<lparr>ar_capacity := grown_capacity MX (ar_capacity ar) nc\<rparr>)))"
proof (cases "ar_capacity ar = MX")
  case True
  then show ?thesis by (simp add: expand_capacity_at_max)
next
  case ne: False
  show ?thesis
  proof (cases "scaled_capacity (ar_capacity ar) (ar_exp_factor ar)")
    case None
    with ne show ?thesis by (simp add: expand_capacity_undefined)
  next
    case (Some nc)
    show ?thesis
    proof (cases ok)
      case True
      with ne Some expand_capacity_alloc_ok [OF ne Some] show ?thesis by simp
    next
      case False
      with ne Some expand_capacity_alloc_fails [OF ne Some] show ?thesis by simp
    qed
  qed
qed

text \<open>The new buffer is not truncated when the byte count of the new capacity does not wrap.\<close>

lemma expand_capacity_ok:
  assumes "ar_capacity ar \<noteq> MX"
    and "scaled_capacity (ar_capacity ar) (ar_exp_factor ar) = Some nc"
    and "ar_size ar \<le> ar_capacity ar" and "ar_capacity ar \<le> MX"
    and "unat (ar_size ar) \<le> length (ar_buffer ar)"
    and "unat (grown_capacity MX (ar_capacity ar) nc) < 2 ^ 61"
  shows "expand_capacity MX True ar
         = Some (CC_OK, ar\<lparr>ar_capacity := grown_capacity MX (ar_capacity ar) nc,
                            ar_buffer := take (unat (ar_size ar)) (ar_buffer ar)
                               @ replicate (unat (grown_capacity MX (ar_capacity ar) nc)
                                             - unat (ar_size ar)) None\<rparr>)"
proof -
  define g where "g = grown_capacity MX (ar_capacity ar) nc"
  have "ar_capacity ar < g"
    unfolding g_def using assms(4,1) by (rule grown_capacity_greater)
  with assms(3) have le: "unat (ar_size ar) \<le> unat g"
    by (simp add: word_le_nat_alt word_less_nat_alt)
  have sg: "slots (g * sizeof_ptr) = unat g"
    using assms(6) by (simp add: slots_small g_def)
  have ss: "slots (ar_size ar * sizeof_ptr) = unat (ar_size ar)"
    using le assms(6) by (simp add: slots_small g_def)
  show ?thesis
    unfolding expand_capacity_alloc_ok [OF assms(1,2)] g_def [symmetric] sg ss
    using le assms(5) by simp
qed

text \<open>What a successful call has done.\<close>

lemma expand_capacity_okD:
  assumes "expand_capacity MX ok ar = Some (CC_OK, ar')"
  shows "ar_capacity ar \<noteq> MX" and ok
    and "\<exists>nc. scaled_capacity (ar_capacity ar) (ar_exp_factor ar) = Some nc
            \<and> ar_capacity ar' = grown_capacity MX (ar_capacity ar) nc"
    and "ar_size ar' = ar_size ar" and "ar_exp_factor ar' = ar_exp_factor ar"
    and "slots (ar_size ar * sizeof_ptr) \<le> length (ar_buffer ar)"
    and "ar_buffer ar' = take (slots (ar_size ar * sizeof_ptr)) (ar_buffer ar)
           @ replicate (slots (ar_capacity ar' * sizeof_ptr) - slots (ar_size ar * sizeof_ptr)) None"
    and "length (ar_buffer ar') = slots (ar_capacity ar' * sizeof_ptr)"
proof -
  from assms show ne: "ar_capacity ar \<noteq> MX" and ok: ok
    unfolding expand_capacity_eq [of MX ok ar] by (auto split: option.splits if_splits)
  from assms ne obtain nc where nc: "scaled_capacity (ar_capacity ar) (ar_exp_factor ar) = Some nc"
    unfolding expand_capacity_eq [of MX ok ar] by (auto split: option.splits if_splits)
  define g where "g = grown_capacity MX (ar_capacity ar) nc"
  define k where "k = slots (ar_size ar * sizeof_ptr)"
  define L where "L = slots (g * sizeof_ptr)"
  from assms ok have "expand_capacity MX True ar = Some (CC_OK, ar')" by simp
  then have kL: "k \<le> L" and kl: "k \<le> length (ar_buffer ar)"
    and ar': "ar' = ar\<lparr>ar_capacity := g,
                        ar_buffer := take k (ar_buffer ar) @ replicate (L - k) None\<rparr>"
    unfolding expand_capacity_alloc_ok [OF ne nc] g_def [symmetric] k_def [symmetric]
      L_def [symmetric]
    by (auto split: if_splits)
  have cap: "ar_capacity ar' = g" by (simp add: ar')
  from nc cap show "\<exists>nc. scaled_capacity (ar_capacity ar) (ar_exp_factor ar) = Some nc
            \<and> ar_capacity ar' = grown_capacity MX (ar_capacity ar) nc"
    by (simp add: g_def)
  show "ar_size ar' = ar_size ar" and "ar_exp_factor ar' = ar_exp_factor ar"
    by (simp_all add: ar')
  show "slots (ar_size ar * sizeof_ptr) \<le> length (ar_buffer ar)"
    using kl by (simp add: k_def)
  show "ar_buffer ar' = take (slots (ar_size ar * sizeof_ptr)) (ar_buffer ar)
           @ replicate (slots (ar_capacity ar' * sizeof_ptr) - slots (ar_size ar * sizeof_ptr)) None"
    unfolding cap k_def [symmetric] L_def [symmetric] by (simp add: ar')
  show "length (ar_buffer ar') = slots (ar_capacity ar' * sizeof_ptr)"
    unfolding cap L_def [symmetric] using kL kl by (simp add: ar')
qed

lemma grown_capacity_room:
  assumes sz: "ar_size ar \<le> ar_capacity ar" and mx: "ar_capacity ar \<le> MX"
    and ne: "ar_capacity ar \<noteq> MX"
  shows "ar_capacity ar < grown_capacity MX (ar_capacity ar) nc"
    and "ar_size ar < grown_capacity MX (ar_capacity ar) nc"
    and "unat (ar_size ar) < unat (grown_capacity MX (ar_capacity ar) nc)"
proof -
  show g: "ar_capacity ar < grown_capacity MX (ar_capacity ar) nc"
    using mx ne by (rule grown_capacity_greater)
  with sz show "ar_size ar < grown_capacity MX (ar_capacity ar) nc" by simp
  then show "unat (ar_size ar) < unat (grown_capacity MX (ar_capacity ar) nc)"
    by (simp add: word_less_nat_alt)
qed

lemma expand_capacity_keeps_room:
  assumes sz: "ar_size ar \<le> ar_capacity ar" and mx: "ar_capacity ar \<le> MX"
    and ex: "expand_capacity MX ok ar = Some (st, ar')"
  shows "ar_size ar' = ar_size ar \<and> ar_size ar' \<le> ar_capacity ar'
         \<and> ar_capacity ar \<le> ar_capacity ar'"
proof (cases "ar_capacity ar = MX")
  case True
  with ex sz show ?thesis by (simp add: expand_capacity_at_max)
next
  case False
  note g = grown_capacity_room [OF sz mx False]
  from ex False show ?thesis
    unfolding expand_capacity_eq [of MX ok ar]
    using g(1) g(2) by (auto split: option.splits if_splits simp: less_imp_le)
qed

lemma expand_capacity_grows:
  assumes sz: "ar_size ar \<le> ar_capacity ar" and mx: "ar_capacity ar \<le> MX"
    and ex: "expand_capacity MX ok ar = Some (CC_OK, ar')"
  shows "ar_capacity ar < ar_capacity ar'" and "ar_size ar' < ar_capacity ar'"
proof -
  note d = expand_capacity_okD [OF ex]
  from d(3) obtain nc where cap: "ar_capacity ar' = grown_capacity MX (ar_capacity ar) nc"
    by blast
  note g = grown_capacity_room [OF sz mx d(1), of nc]
  show "ar_capacity ar < ar_capacity ar'" using g(1) by (simp add: cap)
  show "ar_size ar' < ar_capacity ar'" using g(2) by (simp add: cap d(4))
qed

lemma expand_capacity_status:
  "expand_capacity MX ok ar = Some (st, ar') \<Longrightarrow> st \<noteq> CC_ERR_OUT_OF_RANGE"
  by (auto simp: expand_capacity_def Let_def split: if_splits option.splits)

lemma expand_capacity_max_iff:
  "(\<exists>ar'. expand_capacity MX ok ar = Some (CC_ERR_MAX_CAPACITY, ar')) \<longleftrightarrow> ar_capacity ar = MX"
  unfolding expand_capacity_eq [of MX ok ar] by (auto split: option.splits)

text \<open>
  The array in which \<open>add\<close> and \<open>add_at\<close> store the element: the array itself when it has
  room, the expanded array else. Slot \<open>size\<close> is inside its buffer whenever the store is
  defined, and then the elements have been kept.
\<close>

lemma room_ok:
  assumes wf: "array_wf ar" and mx: "ar_capacity ar \<le> MX"
    and room: "(if ar_capacity ar \<le> ar_size ar then expand_capacity MX ok ar
                else Some (CC_OK, ar)) = Some (CC_OK, ar1)"
    and slot: "unat (ar_size ar1) < length (ar_buffer ar1)"
  shows "ar_size ar1 = ar_size ar"
    and "take (unat (ar_size ar)) (ar_buffer ar1) = take (unat (ar_size ar)) (ar_buffer ar)"
    and "ar_size ar < ar_capacity ar1"
    and "ar_size ar < ar_capacity ar \<or> unat (ar_capacity ar1) < 2 ^ 61
           \<Longrightarrow> unat (ar_capacity ar1) \<le> length (ar_buffer ar1)"
    and "ar_exp_factor ar1 = ar_exp_factor ar"
proof -
  have sz: "ar_size ar \<le> ar_capacity ar" and len: "unat (ar_capacity ar) \<le> length (ar_buffer ar)"
    using wf by (simp_all add: array_wf_def)
  from sz len have slen: "unat (ar_size ar) \<le> length (ar_buffer ar)"
    by (simp add: word_le_nat_alt)
  have "ar_size ar1 = ar_size ar
        \<and> take (unat (ar_size ar)) (ar_buffer ar1) = take (unat (ar_size ar)) (ar_buffer ar)
        \<and> ar_size ar < ar_capacity ar1
        \<and> (ar_size ar < ar_capacity ar \<or> unat (ar_capacity ar1) < 2 ^ 61
             \<longrightarrow> unat (ar_capacity ar1) \<le> length (ar_buffer ar1))
        \<and> ar_exp_factor ar1 = ar_exp_factor ar"
  proof (cases "ar_capacity ar \<le> ar_size ar")
    case False
    with room have "ar1 = ar" by simp
    with False len show ?thesis by simp
  next
    case True
    with room have ex: "expand_capacity MX ok ar = Some (CC_OK, ar1)" by simp
    note d = expand_capacity_okD [OF ex]
    note g = expand_capacity_grows [OF sz mx ex]
    define L where "L = slots (ar_capacity ar1 * sizeof_ptr)"
    from slot have nL: "unat (ar_size ar) < L" by (simp add: d(4) d(8) L_def)
    then have k: "slots (ar_size ar * sizeof_ptr) = unat (ar_size ar)"
      unfolding L_def by (rule slots_above) simp
    have buf: "ar_buffer ar1 = take (unat (ar_size ar)) (ar_buffer ar)
                 @ replicate (L - unat (ar_size ar)) None"
      using d(7) by (simp add: k L_def)
    have tk: "take (unat (ar_size ar)) (ar_buffer ar1) = take (unat (ar_size ar)) (ar_buffer ar)"
      using slen by (simp add: buf)
    have "unat (ar_capacity ar1) \<le> length (ar_buffer ar1)"
      if "unat (ar_capacity ar1) < 2 ^ 61"
      using that by (simp add: d(8) slots_small)
    moreover have "\<not> ar_size ar < ar_capacity ar" using True by simp
    ultimately show ?thesis using d(4) d(5) g(2) tk by simp
  qed
  then show "ar_size ar1 = ar_size ar"
    and "take (unat (ar_size ar)) (ar_buffer ar1) = take (unat (ar_size ar)) (ar_buffer ar)"
    and "ar_size ar < ar_capacity ar1"
    and "ar_size ar < ar_capacity ar \<or> unat (ar_capacity ar1) < 2 ^ 61
           \<Longrightarrow> unat (ar_capacity ar1) \<le> length (ar_buffer ar1)"
    and "ar_exp_factor ar1 = ar_exp_factor ar"
    by simp_all
qed

subsection \<open>Appending\<close>

lemma add_result:
  assumes "cc_array_add MX ok ar e = Some (CC_OK, ar')"
  obtains ar1 where "(if ar_capacity ar \<le> ar_size ar then expand_capacity MX ok ar
                      else Some (CC_OK, ar)) = Some (CC_OK, ar1)"
    and "unat (ar_size ar1) < length (ar_buffer ar1)"
    and "ar' = ar1\<lparr>ar_buffer := (ar_buffer ar1)[unat (ar_size ar1) := Some e],
                    ar_size := ar_size ar1 + 1\<rparr>"
  using assms unfolding cc_array_add_def buf_write_def
  by (auto split: option.splits if_splits prod.splits)

lemma add_defined:
  assumes "(if ar_capacity ar \<le> ar_size ar then expand_capacity MX ok ar
            else Some (CC_OK, ar)) = Some (CC_OK, ar1)"
    and "unat (ar_size ar1) < length (ar_buffer ar1)"
  shows "cc_array_add MX ok ar e
         = Some (CC_OK, ar1\<lparr>ar_buffer := (ar_buffer ar1)[unat (ar_size ar1) := Some e],
                              ar_size := ar_size ar1 + 1\<rparr>)"
  using assms unfolding cc_array_add_def buf_write_def by simp

lemma room_size:
  assumes "(if ar_capacity ar \<le> ar_size ar then expand_capacity MX ok ar
            else Some (CC_OK, ar)) = Some (CC_OK, ar1)"
  shows "ar_size ar1 = ar_size ar"
proof (cases "ar_capacity ar \<le> ar_size ar")
  case True
  with assms have "expand_capacity MX ok ar = Some (CC_OK, ar1)" by simp
  then show ?thesis by (rule expand_capacity_okD(4))
next
  case False
  with assms show ?thesis by simp
qed

lemma add_elems:
  assumes wf: "array_wf ar" and mx: "ar_capacity ar \<le> MX"
    and add: "cc_array_add MX ok ar e = Some (CC_OK, ar')"
  shows "ar_size ar' = ar_size ar + 1" and "unat (ar_size ar') = unat (ar_size ar) + 1"
    and "array_elems ar' = array_elems ar @ [e]"
    and "ar_size ar' \<le> ar_capacity ar'"
    and "unat (ar_size ar') \<le> length (ar_buffer ar')"
    and "list_all (\<lambda>slot. slot \<noteq> None) (take (unat (ar_size ar')) (ar_buffer ar'))"
    and "ar_size ar < ar_capacity ar \<or> unat (ar_capacity ar') < 2 ^ 61 \<Longrightarrow> array_wf ar'"
proof -
  from add obtain ar1 where room: "(if ar_capacity ar \<le> ar_size ar then expand_capacity MX ok ar
                      else Some (CC_OK, ar)) = Some (CC_OK, ar1)"
    and slot: "unat (ar_size ar1) < length (ar_buffer ar1)"
    and ar': "ar' = ar1\<lparr>ar_buffer := (ar_buffer ar1)[unat (ar_size ar1) := Some e],
                    ar_size := ar_size ar1 + 1\<rparr>"
    by (rule add_result)
  note r = room_ok [OF wf mx room slot]
  define n where "n = unat (ar_size ar)"
  have n1: "unat (ar_size ar + 1) = n + 1"
    unfolding n_def using r(3) by (rule unat_succ_less)
  have nlen: "n < length (ar_buffer ar1)"
    using slot by (simp add: n_def r(1))
  show "ar_size ar' = ar_size ar + 1" by (simp add: ar' r(1))
  show "unat (ar_size ar') = unat (ar_size ar) + 1" by (simp add: ar' r(1) n1 n_def)
  have tk: "take (Suc n) ((ar_buffer ar1)[n := Some e]) = take n (ar_buffer ar) @ [Some e]"
    using nlen r(2) by (simp add: take_Suc_conv_app_nth n_def)
  show "array_elems ar' = array_elems ar @ [e]"
    by (simp add: array_elems_def ar' r(1) n1 n_def [symmetric] tk del: take_Suc)
  have cap: "ar_size ar + 1 \<le> ar_capacity ar1" using r(3) by (simp add: inc_le)
  then show le: "ar_size ar' \<le> ar_capacity ar'" by (simp add: ar' r(1))
  show len: "unat (ar_size ar') \<le> length (ar_buffer ar')"
    using nlen by (simp add: ar' r(1) n1)
  have "list_all (\<lambda>slot. slot \<noteq> None) (take n (ar_buffer ar))"
    using wf by (simp add: array_wf_def n_def)
  then show init: "list_all (\<lambda>slot. slot \<noteq> None) (take (unat (ar_size ar')) (ar_buffer ar'))"
    by (simp add: ar' r(1) n1 n_def [symmetric] tk del: take_Suc)
  show "array_wf ar'" if "ar_size ar < ar_capacity ar \<or> unat (ar_capacity ar') < 2 ^ 61"
  proof -
    from that have "ar_size ar < ar_capacity ar \<or> unat (ar_capacity ar1) < 2 ^ 61"
      by (simp add: ar')
    then have "unat (ar_capacity ar1) \<le> length (ar_buffer ar1)" by (rule r(4))
    then have "unat (ar_capacity ar') \<le> length (ar_buffer ar')" by (simp add: ar')
    with le init show ?thesis by (simp add: array_wf_def)
  qed
qed

lemma add_status:
  "cc_array_add MX ok ar e = Some (st, ar') \<Longrightarrow> st \<noteq> CC_ERR_OUT_OF_RANGE"
  by (auto simp: cc_array_add_def split: if_splits option.splits prod.splits
      dest: expand_capacity_status)

text \<open>
  On a full array the status and the capacity that \<open>add\<close> leaves are those of
  \<open>expand_capacity\<close>; after a successful expansion the call is defined when slot \<open>size\<close>
  is inside the new buffer.
\<close>

lemma add_full_status:
  assumes full: "ar_capacity ar \<le> ar_size ar"
  shows "status_capacity (cc_array_add MX ok ar e) =
     (case expand_capacity MX ok ar of
        None \<Rightarrow> None
      | Some (st, ar1) \<Rightarrow>
          if st = CC_OK \<and> \<not> unat (ar_size ar) < length (ar_buffer ar1) then None
          else Some (st, ar_capacity ar1))"
proof (cases "expand_capacity MX ok ar")
  case None
  with full show ?thesis by (simp add: cc_array_add_def status_capacity_def)
next
  case (Some r)
  obtain st ar1 where r: "r = (st, ar1)" by (cases r)
  show ?thesis
  proof (cases "st = CC_OK")
    case False
    with full Some r show ?thesis by (simp add: cc_array_add_def status_capacity_def)
  next
    case True
    with Some r have "expand_capacity MX ok ar = Some (CC_OK, ar1)" by simp
    then have "ar_size ar1 = ar_size ar" by (rule expand_capacity_okD(4))
    with full Some r True show ?thesis
      by (simp add: cc_array_add_def status_capacity_def buf_write_def)
  qed
qed

subsection \<open>Inserting\<close>

lemma shift_insert_take:
  assumes "i < n" "n < length B"
  shows "take (Suc n) ((take (Suc i) B @ take (n - i) (drop i B) @ drop (Suc n) B)[i := v])
         = take i (take n B) @ v # drop i (take n B)"
proof -
  have i: "i < length B" using assms by simp
  have "(take (Suc i) B @ take (n - i) (drop i B) @ drop (Suc n) B)[i := v]
        = (take (Suc i) B)[i := v] @ take (n - i) (drop i B) @ drop (Suc n) B"
    using i by (simp add: list_update_append)
  also have "(take (Suc i) B)[i := v] = take i B @ [v]"
    using i by (simp add: take_Suc_conv_app_nth list_update_append)
  finally have "take (Suc n) ((take (Suc i) B @ take (n - i) (drop i B) @ drop (Suc n) B)[i := v])
        = take (Suc n) (take i B @ v # take (n - i) (drop i B) @ drop (Suc n) B)"
    by simp
  also have "\<dots> = take i B @ v # take (n - i) (drop i B)"
    using assms by (simp add: min_def Suc_diff_le)
  also have "\<dots> = take i (take n B) @ v # drop i (take n B)"
    using assms by (simp add: drop_take min_def)
  finally show ?thesis .
qed

lemma add_at_range_check:
  fixes index s :: size_t
  assumes "index \<noteq> s"
  shows "((s = 0 \<and> index \<noteq> 0) \<or> s - 1 < index) = (s < index)"
proof (cases "s = 0")
  case True
  with assms show ?thesis by (auto simp: word_greater_zero_iff)
next
  case False
  then have "unat (s - 1) = unat s - 1" by (simp add: unat_minus_one)
  moreover have "unat s \<noteq> 0" using False by (simp add: unat_eq_0)
  moreover have "unat index \<noteq> unat s" using assms by (simp add: word_unat_eq_iff)
  ultimately show ?thesis using False by (auto simp: word_less_nat_alt)
qed

lemma add_at_out_of_range:
  "ar_size ar < index \<Longrightarrow> cc_array_add_at MX ok ar e index = Some (CC_ERR_OUT_OF_RANGE, ar)"
  using add_at_range_check [of index "ar_size ar"] by (auto simp: cc_array_add_at_def)

lemma add_at_append:
  "cc_array_add_at MX ok ar e (ar_size ar) = cc_array_add MX ok ar e"
  by (simp add: cc_array_add_at_def)

lemma add_at_result:
  assumes lt: "index < ar_size ar"
    and add: "cc_array_add_at MX ok ar e index = Some (CC_OK, ar')"
  obtains ar1 b1 where "(if ar_capacity ar \<le> ar_size ar then expand_capacity MX ok ar
                      else Some (CC_OK, ar)) = Some (CC_OK, ar1)"
    and "memmove (ar_buffer ar1) (unat (index + 1)) (unat index) (unat (ar_size ar1 - index)) = Some b1"
    and "unat index < length b1"
    and "ar' = ar1\<lparr>ar_buffer := b1[unat index := Some e], ar_size := ar_size ar1 + 1\<rparr>"
proof -
  from lt have ne: "index \<noteq> ar_size ar" by auto
  from lt have "\<not> ar_size ar < index" by auto
  with add_at_range_check [OF ne] have "\<not> ((ar_size ar = 0 \<and> index \<noteq> 0) \<or> ar_size ar - 1 < index)"
    by simp
  with add ne that show ?thesis
    unfolding cc_array_add_at_def buf_write_def
    by (auto split: option.splits if_splits prod.splits)
qed

lemma add_at_inner:
  assumes lt: "index < ar_size ar"
  shows "cc_array_add_at MX ok ar e index =
     (case (if ar_capacity ar \<le> ar_size ar then expand_capacity MX ok ar
            else Some (CC_OK, ar)) of
        None \<Rightarrow> None
      | Some (status, ar1) \<Rightarrow>
          if status \<noteq> CC_OK then Some (status, ar1)
          else (case memmove (ar_buffer ar1) (Suc (unat index)) (unat index)
                       (unat (ar_size ar1 - index)) of
                  None \<Rightarrow> None
                | Some b1 \<Rightarrow>
                    (case buf_write b1 (unat index) e of
                       None \<Rightarrow> None
                     | Some b2 \<Rightarrow>
                         Some (CC_OK, ar1\<lparr>ar_buffer := b2, ar_size := ar_size ar1 + 1\<rparr>))))"
proof -
  from lt have ne: "index \<noteq> ar_size ar" by auto
  from lt have "\<not> ar_size ar < index" by auto
  with add_at_range_check [OF ne]
  have rc: "((ar_size ar = 0 \<and> index \<noteq> 0) \<or> ar_size ar - 1 < index) = False" by simp
  have i1: "unat (index + 1) = Suc (unat index)"
    using unat_succ_less [OF lt] by simp
  show ?thesis
    unfolding cc_array_add_at_def rc i1 using ne by simp
qed

lemma add_at_elems:
  assumes wf: "array_wf ar" and mx: "ar_capacity ar \<le> MX"
    and lt: "index < ar_size ar"
    and add: "cc_array_add_at MX ok ar e index = Some (CC_OK, ar')"
  shows "ar_size ar' = ar_size ar + 1" and "unat (ar_size ar') = unat (ar_size ar) + 1"
    and "array_elems ar' = take (unat index) (array_elems ar) @ e # drop (unat index) (array_elems ar)"
    and "ar_size ar' \<le> ar_capacity ar'"
    and "unat (ar_size ar') \<le> length (ar_buffer ar')"
    and "list_all (\<lambda>slot. slot \<noteq> None) (take (unat (ar_size ar')) (ar_buffer ar'))"
    and "ar_size ar < ar_capacity ar \<or> unat (ar_capacity ar') < 2 ^ 61 \<Longrightarrow> array_wf ar'"
proof -
  from lt add obtain ar1 b1 where room: "(if ar_capacity ar \<le> ar_size ar then expand_capacity MX ok ar
                      else Some (CC_OK, ar)) = Some (CC_OK, ar1)"
    and mv: "memmove (ar_buffer ar1) (unat (index + 1)) (unat index) (unat (ar_size ar1 - index)) = Some b1"
    and ar': "ar' = ar1\<lparr>ar_buffer := b1[unat index := Some e], ar_size := ar_size ar1 + 1\<rparr>"
    by (rule add_at_result)
  note s1 = room_size [OF room]
  define n where "n = unat (ar_size ar)"
  define i where "i = unat index"
  define B where "B = ar_buffer ar1"
  have i_n: "i < n" using lt by (simp add: i_def n_def word_less_nat_alt)
  have i1: "unat (index + 1) = Suc i"
    unfolding i_def using unat_succ_less [OF lt] by simp
  have sub: "unat (ar_size ar - index) = n - i"
    using lt by (simp add: unat_sub n_def i_def)
  from mv have "Suc i + (n - i) \<le> length B"
    unfolding s1 i1 sub B_def [symmetric] i_def [symmetric]
    by (simp add: memmove_def split: if_splits)
  with i_n have nlen: "n < length B" by simp
  then have slot: "unat (ar_size ar1) < length (ar_buffer ar1)"
    by (simp add: s1 n_def B_def)
  note r = room_ok [OF wf mx room slot]
  have n1: "unat (ar_size ar + 1) = Suc n"
    unfolding n_def using unat_succ_less [OF r(3)] by simp
  have b1: "b1 = take (Suc i) B @ take (n - i) (drop i B) @ drop (Suc n) B"
    using mv i_n nlen unfolding r(1) i1 sub B_def [symmetric] i_def [symmetric]
    by (simp add: memmove_def split: if_splits)
  have tk: "take (Suc n) (b1[i := Some e]) = take i (take n B) @ Some e # drop i (take n B)"
    unfolding b1 using i_n nlen by (rule shift_insert_take)
  have tB: "take n B = take n (ar_buffer ar)"
    using r(2) by (simp add: n_def B_def)
  show "ar_size ar' = ar_size ar + 1" by (simp add: ar' r(1))
  show "unat (ar_size ar') = unat (ar_size ar) + 1" by (simp add: ar' r(1) n1 n_def)
  show "array_elems ar' = take (unat index) (array_elems ar) @ e # drop (unat index) (array_elems ar)"
    unfolding array_elems_def ar' i_def [symmetric] n_def [symmetric]
    by (simp add: r(1) n1 tk tB take_map drop_map del: take_Suc)
  have len_b1: "length b1 = length B"
    using i_n nlen by (auto simp: b1 min_def)
  have "ar_size ar + 1 \<le> ar_capacity ar1" using r(3) by (simp add: inc_le)
  then show le: "ar_size ar' \<le> ar_capacity ar'" by (simp add: ar' r(1))
  show "unat (ar_size ar') \<le> length (ar_buffer ar')"
    using nlen by (simp add: ar' r(1) n1 len_b1 i_def [symmetric])
  have all: "list_all (\<lambda>slot. slot \<noteq> None) (take n (ar_buffer ar))"
    using wf by (simp add: array_wf_def n_def)
  define X where "X = take n B"
  have "list_all (\<lambda>slot. slot \<noteq> None) X"
    using all by (simp add: X_def tB)
  then have "list_all (\<lambda>slot. slot \<noteq> None) (take i X @ Some e # drop i X)"
    by (auto simp: list_all_iff dest: in_set_takeD in_set_dropD)
  then have "list_all (\<lambda>slot. slot \<noteq> None) (take i (take n B) @ Some e # drop i (take n B))"
    by (simp only: X_def)
  then show init: "list_all (\<lambda>slot. slot \<noteq> None) (take (unat (ar_size ar')) (ar_buffer ar'))"
    unfolding ar' i_def [symmetric] by (simp add: r(1) n1 tk del: take_Suc)
  show "array_wf ar'" if "ar_size ar < ar_capacity ar \<or> unat (ar_capacity ar') < 2 ^ 61"
  proof -
    from that have "ar_size ar < ar_capacity ar \<or> unat (ar_capacity ar1) < 2 ^ 61"
      by (simp add: ar')
    then have "unat (ar_capacity ar1) \<le> length (ar_buffer ar1)" by (rule r(4))
    then have "unat (ar_capacity ar') \<le> length (ar_buffer ar')"
      by (simp add: ar' len_b1 B_def i_def [symmetric])
    with le init show ?thesis by (simp add: array_wf_def)
  qed
qed

lemma add_at_status:
  assumes "index \<le> ar_size ar"
  shows "cc_array_add_at MX ok ar e index \<noteq> Some (CC_ERR_OUT_OF_RANGE, ar')"
proof (cases "index = ar_size ar")
  case True
  then show ?thesis using add_status [of MX ok ar e CC_ERR_OUT_OF_RANGE ar']
    by (auto simp: cc_array_add_at_def)
next
  case False
  with assms have "\<not> ar_size ar < index" by auto
  with add_at_range_check [OF False]
  have "\<not> ((ar_size ar = 0 \<and> index \<noteq> 0) \<or> ar_size ar - 1 < index)" by simp
  with False show ?thesis
    unfolding cc_array_add_at_def
    by (auto split: if_splits option.splits prod.splits dest: expand_capacity_status)
qed

lemma add_at_room_defined:
  assumes wf: "array_wf ar" and le: "index \<le> ar_size ar" and room: "ar_size ar < ar_capacity ar"
  shows "\<exists>ar'. cc_array_add_at MX ok ar e index = Some (CC_OK, ar')"
proof (cases "index = ar_size ar")
  case True
  have "unat (ar_size ar) < length (ar_buffer ar)"
    using wf room by (simp add: array_wf_def word_less_nat_alt)
  moreover have "\<not> ar_capacity ar \<le> ar_size ar" using room by simp
  ultimately show ?thesis using True
    by (simp add: cc_array_add_at_def cc_array_add_def buf_write_def)
next
  case False
  with le have lt: "index < ar_size ar" by auto
  then have "\<not> ar_size ar < index" by auto
  with add_at_range_check [OF False]
  have rc: "\<not> ((ar_size ar = 0 \<and> index \<noteq> 0) \<or> ar_size ar - 1 < index)" by simp
  define n where "n = unat (ar_size ar)"
  define i where "i = unat index"
  have i_n: "i < n" using lt by (simp add: i_def n_def word_less_nat_alt)
  have i1: "unat (index + 1) = Suc i"
    unfolding i_def using unat_succ_less [OF lt] by simp
  have sub: "unat (ar_size ar - index) = n - i"
    using lt by (simp add: unat_sub n_def i_def)
  have nlen: "n < length (ar_buffer ar)"
    using wf room by (simp add: array_wf_def n_def word_less_nat_alt)
  have "\<not> ar_capacity ar \<le> ar_size ar" using room by simp
  with rc False i_n nlen show ?thesis
    by (simp add: cc_array_add_at_def memmove_def buf_write_def i1 sub i_def [symmetric]
          n_def [symmetric])
qed

lemma add_at_full_status:
  assumes full: "ar_capacity ar \<le> ar_size ar" and le: "index \<le> ar_size ar"
  shows "status_capacity (cc_array_add_at MX ok ar e index) =
     (case expand_capacity MX ok ar of
        None \<Rightarrow> None
      | Some (st, ar1) \<Rightarrow>
          if st = CC_OK \<and> \<not> unat (ar_size ar) < length (ar_buffer ar1) then None
          else Some (st, ar_capacity ar1))"
proof (cases "index = ar_size ar")
  case True
  then show ?thesis by (simp add: add_at_append add_full_status [OF full])
next
  case False
  with le have lt: "index < ar_size ar" by auto
  show ?thesis
  proof (cases "expand_capacity MX ok ar")
    case None
    with full show ?thesis by (simp add: add_at_inner [OF lt] status_capacity_def)
  next
    case (Some r)
    obtain st ar1 where r: "r = (st, ar1)" by (cases r)
    show ?thesis
    proof (cases "st = CC_OK")
      case False
      with full Some r show ?thesis by (simp add: add_at_inner [OF lt] status_capacity_def)
    next
      case True
      with Some r have "expand_capacity MX ok ar = Some (CC_OK, ar1)" by simp
      then have s1: "ar_size ar1 = ar_size ar" by (rule expand_capacity_okD(4))
      define n where "n = unat (ar_size ar)"
      define i where "i = unat index"
      have i_n: "i < n" using lt by (simp add: i_def n_def word_less_nat_alt)
      have sub: "unat (ar_size ar - index) = n - i"
        using lt by (simp add: unat_sub n_def i_def)
      show ?thesis
      proof (cases "n < length (ar_buffer ar1)")
        case inside: True
        with i_n have "i < length (ar_buffer ar1)" by simp
        with full Some r True i_n inside show ?thesis
          by (simp add: add_at_inner [OF lt] s1 status_capacity_def memmove_def buf_write_def
                sub i_def [symmetric] n_def [symmetric])
      next
        case outside: False
        with i_n have "\<not> Suc i + (n - i) \<le> length (ar_buffer ar1)" by simp
        with full Some r True outside show ?thesis
          by (simp add: add_at_inner [OF lt] s1 status_capacity_def memmove_def
                sub i_def [symmetric] n_def [symmetric])
      qed
    qed
  qed
qed

lemma status_capacity_Some:
  "status_capacity r = Some (st, c) \<longleftrightarrow> (\<exists>ar'. r = Some (st, ar') \<and> ar_capacity ar' = c)"
  by (cases r) (auto simp: status_capacity_def)

lemma get_at_holds:
  assumes len: "unat (ar_size ar) \<le> length (ar_buffer ar)"
    and init: "list_all (\<lambda>slot. slot \<noteq> None) (take (unat (ar_size ar)) (ar_buffer ar))"
    and lt: "j < ar_size ar"
  shows "cc_array_get_at ar j (Out x) = Some (CC_OK, Out (array_elems ar ! unat j))"
proof -
  define n where "n = unat (ar_size ar)"
  have jn: "unat j < n" using lt by (simp add: n_def word_less_nat_alt)
  with len have jl: "unat j < length (ar_buffer ar)" by (simp add: n_def)
  have "ar_buffer ar ! unat j \<in> set (take n (ar_buffer ar))"
    using jn jl by (auto simp: in_set_conv_nth intro!: exI [of _ "unat j"])
  with init obtain v where v: "ar_buffer ar ! unat j = Some v"
    by (auto simp: list_all_iff n_def)
  have "array_elems ar ! unat j = v"
    using jn jl v by (simp add: array_elems_def n_def [symmetric])
  with lt jl v show ?thesis
    by (simp add: cc_array_get_at_def buf_read_def)
qed

lemma get_at_elems:
  assumes wf: "array_wf ar" and lt: "j < ar_size ar"
  shows "cc_array_get_at ar j (Out x) = Some (CC_OK, Out (array_elems ar ! unat j))"
proof (rule get_at_holds [OF _ _ lt])
  show "unat (ar_size ar) \<le> length (ar_buffer ar)"
    using wf by (simp add: array_wf_def word_le_nat_alt)
  show "list_all (\<lambda>slot. slot \<noteq> None) (take (unat (ar_size ar)) (ar_buffer ar))"
    using wf by (simp add: array_wf_def)
qed

subsection \<open>Subarrays\<close>

lemma subarray_result:
  assumes wf: "array_wf ar"
    and sub: "cc_array_subarray ok_ar ok_buff ar b e = Some (CC_OK, Some sub)"
  shows "ar_exp_factor sub = 0" and "ar_size sub = e - b + 1" and "ar_capacity sub = ar_size sub"
    and "unat (ar_size sub) = unat e - unat b + 1" and "b \<le> e" and "e < ar_size ar"
    and "ar_buffer sub = take (unat e - unat b + 1) (drop (unat b) (ar_buffer ar))
            @ replicate (unat (ar_capacity ar) - (unat e - unat b + 1)) None"
proof -
  from sub have be: "b \<le> e" and es: "e < ar_size ar"
    by (auto simp: cc_array_subarray_def split: if_splits)
  have sub1: "unat (e - b) = unat e - unat b" using be by (simp add: unat_sub)
  have "unat (e - b) < unat (ar_size ar)"
    using es by (simp add: sub1 word_less_nat_alt)
  then have "e - b < ar_size ar" by (simp add: word_less_nat_alt)
  then have n: "unat (e - b + 1) = unat e - unat b + 1"
    using unat_succ_less [of "e - b" "ar_size ar"] by (simp add: sub1)
  from sub be es show "ar_exp_factor sub = 0" and "ar_size sub = e - b + 1"
    and "ar_capacity sub = ar_size sub"
    by (auto simp: cc_array_subarray_def malloc_def memcpy_def Let_def split: if_splits)
  then show "unat (ar_size sub) = unat e - unat b + 1" by (simp add: n)
  show "b \<le> e" by fact
  show "e < ar_size ar" by fact
  from sub be es show "ar_buffer sub = take (unat e - unat b + 1) (drop (unat b) (ar_buffer ar))
            @ replicate (unat (ar_capacity ar) - (unat e - unat b + 1)) None"
    by (auto simp: cc_array_subarray_def malloc_def memcpy_def Let_def n split: if_splits)
qed

lemma subarray_wf:
  assumes wf: "array_wf ar"
    and sub: "cc_array_subarray ok_ar ok_buff ar b e = Some (CC_OK, Some sub)"
  shows "array_wf sub" and "ar_capacity sub \<le> ar_capacity ar"
    and "array_elems sub = take (unat e - unat b + 1) (drop (unat b) (array_elems ar))"
proof -
  note r = subarray_result [OF wf sub]
  define n where "n = unat (ar_size ar)"
  define k where "k = unat e - unat b + 1"
  have r4: "unat (ar_size sub) = k" by (simp add: r(4) k_def)
  have r7: "ar_buffer sub = take k (drop (unat b) (ar_buffer ar))
              @ replicate (unat (ar_capacity ar) - k) None"
    by (simp add: r(7) k_def)
  have en: "unat e < n" using r(6) by (simp add: n_def word_less_nat_alt)
  have be: "unat b \<le> unat e" using r(5) by (simp add: word_le_nat_alt)
  have nc: "n \<le> unat (ar_capacity ar)" and cl: "unat (ar_capacity ar) \<le> length (ar_buffer ar)"
    using wf by (simp_all add: array_wf_def n_def word_le_nat_alt)
  have kn: "unat b + k \<le> n" using en be by (simp add: k_def)
  have tk: "take k (ar_buffer sub) = take k (drop (unat b) (ar_buffer ar))"
    using kn nc cl by (simp add: r7)
  have sub_take: "take k (drop (unat b) (ar_buffer ar)) = take k (drop (unat b) (take n (ar_buffer ar)))"
    using kn by (simp add: drop_take)
  have "unat (ar_capacity sub) \<le> unat (ar_capacity ar)"
    using kn nc by (simp add: r(3) r4)
  then show "ar_capacity sub \<le> ar_capacity ar" by (simp add: word_le_nat_alt)
  have all: "list_all (\<lambda>slot. slot \<noteq> None) (take n (ar_buffer ar))"
    using wf by (simp add: array_wf_def n_def)
  define X where "X = take n (ar_buffer ar)"
  have "list_all (\<lambda>slot. slot \<noteq> None) X"
    using all by (simp add: X_def)
  then have "list_all (\<lambda>slot. slot \<noteq> None) (take k (drop (unat b) X))"
    by (auto simp: list_all_iff dest!: in_set_takeD in_set_dropD)
  then have "list_all (\<lambda>slot. slot \<noteq> None) (take k (drop (unat b) (take n (ar_buffer ar))))"
    by (simp only: X_def)
  moreover have "length (ar_buffer sub) = unat (ar_capacity ar)"
    using kn nc cl by (simp add: r7)
  ultimately show "array_wf sub"
    using kn nc unfolding array_wf_def r(3) r4 tk sub_take
    by simp
  show "array_elems sub = take (unat e - unat b + 1) (drop (unat b) (array_elems ar))"
    unfolding array_elems_def r4 n_def [symmetric] tk sub_take
    by (simp add: take_map drop_map k_def)
qed

lemma zero_factor_add:
  assumes wf: "array_wf a" and mx: "ar_capacity a \<le> MX"
    and z: "ar_exp_factor a = 0" and full: "ar_capacity a \<le> ar_size a"
  shows "status_capacity (cc_array_add MX ok a x)
         = (if ar_capacity a = MX then Some (CC_ERR_MAX_CAPACITY, MX)
            else if \<not> ok then Some (CC_ERR_ALLOC, MX)
            else if unat (ar_size a) < slots (MX * sizeof_ptr) then Some (CC_OK, MX)
            else None)"
proof -
  have len: "unat (ar_size a) \<le> length (ar_buffer a)"
    using wf by (auto simp: array_wf_def word_le_nat_alt)
  have g: "grown_capacity MX (ar_capacity a) 0 = MX" by (simp add: grown_capacity_def)
  show ?thesis
  proof (cases "unat (ar_size a) < slots (MX * sizeof_ptr)")
    case True
    then have k: "slots (ar_size a * sizeof_ptr) = unat (ar_size a)"
      by (rule slots_above) simp
    from True len show ?thesis
      unfolding add_full_status [OF full] expand_capacity_eq [of MX ok a]
      by (simp add: z scaled_capacity_zero g k)
  next
    case False
    then show ?thesis
      unfolding add_full_status [OF full] expand_capacity_eq [of MX ok a]
      by (simp add: z scaled_capacity_zero g)
  qed
qed

subsection \<open>Expansion from \<open>add\<close> and \<open>add_at\<close>\<close>

lemma scaled_capacity_wrap:
  "scaled_capacity 0x1000000000000000 DEFAULT_EXPANSION_FACTOR = Some 0x2000000000000000"
  by (simp add: scaled_capacity_def float_of_size_def float_decode_def
        DEFAULT_EXPANSION_FACTOR_def fp_round_def round_even_def fp_trunc_def bitlen.simps Let_def)

text \<open>
  From capacity \<open>2^60\<close> the default factor gives capacity \<open>2^61\<close>, whose byte count
  \<open>2^61 * 8\<close> is 0 in \<open>size_t\<close>: the new buffer has no slot, and the copy of the two
  elements is outside it.
\<close>

lemma expand_capacity_byte_count_wraps:
  "slots (0x2000000000000000 * sizeof_ptr) = 0
   \<and> expand_capacity 0xFFFFFFFFFFFFFFFE True
        \<lparr>ar_size = 2, ar_capacity = 0x1000000000000000,
         ar_exp_factor = DEFAULT_EXPANSION_FACTOR, ar_buffer = [Some 1, Some 2]\<rparr> = None"
  by (simp add: expand_capacity_def scaled_capacity_wrap malloc_def memcpy_def slots_def
        sizeof_ptr_def)

lemma expand_capacity_returns:
  assumes sz: "ar_size ar \<le> ar_capacity ar" and mx: "ar_capacity ar \<le> MX"
    and len: "unat (ar_size ar) \<le> length (ar_buffer ar)"
    and ne: "ar_capacity ar \<noteq> MX"
    and nc: "scaled_capacity (ar_capacity ar) (ar_exp_factor ar) = Some nc"
    and small: "unat (grown_capacity MX (ar_capacity ar) nc) < 2 ^ 61"
  shows "\<exists>ar'. expand_capacity MX True ar = Some (CC_OK, ar')
           \<and> ar_capacity ar' = grown_capacity MX (ar_capacity ar) nc
           \<and> length (ar_buffer ar') = unat (ar_capacity ar')
           \<and> take (unat (ar_size ar)) (ar_buffer ar') = take (unat (ar_size ar)) (ar_buffer ar)"
proof -
  have "unat (ar_size ar) < unat (grown_capacity MX (ar_capacity ar) nc)"
    using sz mx ne by (rule grown_capacity_room(3))
  with len show ?thesis
    unfolding expand_capacity_ok [OF ne nc sz mx len small] by simp
qed

lemma add_at_full_returns:
  assumes sz: "ar_size ar \<le> ar_capacity ar" and mx: "ar_capacity ar \<le> MX"
    and len: "unat (ar_size ar) \<le> length (ar_buffer ar)"
    and ne: "ar_capacity ar \<noteq> MX"
    and nc: "scaled_capacity (ar_capacity ar) (ar_exp_factor ar) = Some nc"
    and small: "unat (grown_capacity MX (ar_capacity ar) nc) < 2 ^ 61"
    and full: "ar_capacity ar \<le> ar_size ar" and le: "index \<le> ar_size ar"
  shows "\<exists>ar'. cc_array_add_at MX True ar e index = Some (CC_OK, ar')"
proof -
  from expand_capacity_returns [OF sz mx len ne nc small] obtain ar1 where
    ex: "expand_capacity MX True ar = Some (CC_OK, ar1)"
    and cap: "ar_capacity ar1 = grown_capacity MX (ar_capacity ar) nc"
    and l1: "length (ar_buffer ar1) = unat (ar_capacity ar1)"
    by blast
  have "unat (ar_size ar) < unat (grown_capacity MX (ar_capacity ar) nc)"
    using sz mx ne by (rule grown_capacity_room(3))
  then have "unat (ar_size ar) < length (ar_buffer ar1)" by (simp add: l1 cap)
  then have "status_capacity (cc_array_add_at MX True ar e index) = Some (CC_OK, ar_capacity ar1)"
    unfolding add_at_full_status [OF full le] ex by simp
  then show ?thesis unfolding status_capacity_Some by blast
qed

lemma add_at_full_max_iff:
  assumes full: "ar_capacity ar \<le> ar_size ar" and le: "index \<le> ar_size ar"
  shows "(\<exists>ar'. cc_array_add_at MX ok ar e index = Some (CC_ERR_MAX_CAPACITY, ar'))
           \<longleftrightarrow> ar_capacity ar = MX"
proof
  assume "\<exists>ar'. cc_array_add_at MX ok ar e index = Some (CC_ERR_MAX_CAPACITY, ar')"
  then obtain ar' where "cc_array_add_at MX ok ar e index = Some (CC_ERR_MAX_CAPACITY, ar')"
    by blast
  then have "status_capacity (cc_array_add_at MX ok ar e index)
             = Some (CC_ERR_MAX_CAPACITY, ar_capacity ar')"
    by (simp add: status_capacity_def)
  then have "\<exists>ar1. expand_capacity MX ok ar = Some (CC_ERR_MAX_CAPACITY, ar1)"
    unfolding add_at_full_status [OF full le]
    by (auto split: option.splits if_splits)
  then show "ar_capacity ar = MX" by (simp add: expand_capacity_max_iff)
next
  assume "ar_capacity ar = MX"
  then have "expand_capacity MX ok ar = Some (CC_ERR_MAX_CAPACITY, ar)"
    by (rule expand_capacity_at_max)
  then have "status_capacity (cc_array_add_at MX ok ar e index)
             = Some (CC_ERR_MAX_CAPACITY, ar_capacity ar)"
    unfolding add_at_full_status [OF full le] by simp
  then show "\<exists>ar'. cc_array_add_at MX ok ar e index = Some (CC_ERR_MAX_CAPACITY, ar')"
    unfolding status_capacity_Some by blast
qed

lemma add_at_full_okD:
  assumes sz: "ar_size ar \<le> ar_capacity ar" and mx: "ar_capacity ar \<le> MX"
    and full: "ar_capacity ar \<le> ar_size ar" and le: "index \<le> ar_size ar"
    and add: "cc_array_add_at MX ok ar e index = Some (CC_OK, ar')"
  shows "\<exists>nc. scaled_capacity (ar_capacity ar) (ar_exp_factor ar) = Some nc
            \<and> ar_capacity ar' = grown_capacity MX (ar_capacity ar) nc"
    and "ar_capacity ar < ar_capacity ar'" and "ar_size ar' \<le> ar_capacity ar'"
proof -
  have "\<exists>ar1. expand_capacity MX ok ar = Some (CC_OK, ar1)
          \<and> ar_capacity ar' = ar_capacity ar1 \<and> ar_size ar' = ar_size ar1 + 1"
  proof (cases "index = ar_size ar")
    case True
    with add have "cc_array_add MX ok ar e = Some (CC_OK, ar')" by (simp add: add_at_append)
    then obtain ar1 where
      "(if ar_capacity ar \<le> ar_size ar then expand_capacity MX ok ar
        else Some (CC_OK, ar)) = Some (CC_OK, ar1)"
      "ar' = ar1\<lparr>ar_buffer := (ar_buffer ar1)[unat (ar_size ar1) := Some e],
                    ar_size := ar_size ar1 + 1\<rparr>"
      by (rule add_result)
    with full show ?thesis by simp
  next
    case False
    with le have "index < ar_size ar" by auto
    from this add obtain ar1 b1 where
      "(if ar_capacity ar \<le> ar_size ar then expand_capacity MX ok ar
        else Some (CC_OK, ar)) = Some (CC_OK, ar1)"
      "ar' = ar1\<lparr>ar_buffer := b1[unat index := Some e], ar_size := ar_size ar1 + 1\<rparr>"
      by (rule add_at_result)
    with full show ?thesis by simp
  qed
  then obtain ar1 where ex: "expand_capacity MX ok ar = Some (CC_OK, ar1)"
    and cap: "ar_capacity ar' = ar_capacity ar1" and size: "ar_size ar' = ar_size ar1 + 1"
    by blast
  from expand_capacity_okD(3) [OF ex]
  show "\<exists>nc. scaled_capacity (ar_capacity ar) (ar_exp_factor ar) = Some nc
            \<and> ar_capacity ar' = grown_capacity MX (ar_capacity ar) nc"
    by (simp add: cap)
  note g = expand_capacity_grows [OF sz mx ex]
  show "ar_capacity ar < ar_capacity ar'" using g(1) by (simp add: cap)
  show "ar_size ar' \<le> ar_capacity ar'" using g(2) by (simp add: cap size inc_le)
qed

subsection \<open>The claims about the array\<close>

text \<open>
  C1, as amended. For an array with \<open>size \<le> capacity \<le> CC_MAX_ELEMENTS\<close> whose buffer
  holds its elements: \<open>expand_capacity\<close>, and \<open>add\<close> and \<open>add_at\<close> on a full array, report
  \<open>CC_ERR_MAX_CAPACITY\<close> exactly when the capacity is \<open>CC_MAX_ELEMENTS\<close>. When they
  return \<open>CC_OK\<close> the new capacity is the scaled capacity, which is the product of the
  capacity and the growth factor as C computes it, in single precision and converted to
  \<open>size_t\<close>, or it is \<open>CC_MAX_ELEMENTS\<close> when the scaled capacity does not exceed the old
  capacity; it is greater than the old capacity and not below the size. Whatever
  \<open>expand_capacity\<close> returns, the size is unchanged and at most the capacity. The calls
  return \<open>CC_OK\<close> when the allocation succeeds, the scaled capacity exists and the new
  capacity is below \<open>2^61\<close>, so that its byte count fits \<open>size_t\<close>; the new buffer then
  has as many slots as the new capacity and holds the elements. With the default growth
  factor and a capacity below \<open>2^24\<close> the scaled capacity is exactly twice the capacity.
  \<open>add\<close> is \<open>add_at\<close> at index \<open>size\<close>.
\<close>

theorem expand_capacity_growth:
  assumes sz: "ar_size ar \<le> ar_capacity ar" and mx: "ar_capacity ar \<le> CC_MAX_ELEMENTS"
    and len: "unat (ar_size ar) \<le> length (ar_buffer ar)"
  shows "((\<exists>ar'. expand_capacity CC_MAX_ELEMENTS ok ar = Some (CC_ERR_MAX_CAPACITY, ar'))
            \<longleftrightarrow> ar_capacity ar = CC_MAX_ELEMENTS)
    \<and> (\<forall>ar'. expand_capacity CC_MAX_ELEMENTS ok ar = Some (CC_OK, ar') \<longrightarrow>
           (\<exists>nc. scaled_capacity (ar_capacity ar) (ar_exp_factor ar) = Some nc
                \<and> ar_capacity ar' = grown_capacity CC_MAX_ELEMENTS (ar_capacity ar) nc)
           \<and> ar_capacity ar < ar_capacity ar')
    \<and> (\<forall>st ar'. expand_capacity CC_MAX_ELEMENTS ok ar = Some (st, ar') \<longrightarrow>
           ar_size ar' = ar_size ar \<and> ar_size ar' \<le> ar_capacity ar')
    \<and> (\<forall>nc. ar_capacity ar \<noteq> CC_MAX_ELEMENTS
             \<and> scaled_capacity (ar_capacity ar) (ar_exp_factor ar) = Some nc
             \<and> unat (grown_capacity CC_MAX_ELEMENTS (ar_capacity ar) nc) < 2 ^ 61 \<longrightarrow>
           (\<exists>ar'. expand_capacity CC_MAX_ELEMENTS True ar = Some (CC_OK, ar')
                 \<and> length (ar_buffer ar') = unat (ar_capacity ar')
                 \<and> take (unat (ar_size ar)) (ar_buffer ar')
                     = take (unat (ar_size ar)) (ar_buffer ar))
           \<and> (\<exists>ar'. expand_capacity CC_MAX_ELEMENTS False ar = Some (CC_ERR_ALLOC, ar'))
           \<and> (ar_capacity ar \<le> ar_size ar \<and> index \<le> ar_size ar \<longrightarrow>
                (\<exists>ar'. cc_array_add_at CC_MAX_ELEMENTS True ar e index = Some (CC_OK, ar'))))
    \<and> (ar_exp_factor ar = DEFAULT_EXPANSION_FACTOR \<and> unat (ar_capacity ar) < 2 ^ 24 \<longrightarrow>
         scaled_capacity (ar_capacity ar) (ar_exp_factor ar) = Some (2 * ar_capacity ar))
    \<and> cc_array_add_at CC_MAX_ELEMENTS ok ar e (ar_size ar)
        = cc_array_add CC_MAX_ELEMENTS ok ar e
    \<and> (ar_capacity ar \<le> ar_size ar \<and> index \<le> ar_size ar \<longrightarrow>
         ((\<exists>ar'. cc_array_add_at CC_MAX_ELEMENTS ok ar e index = Some (CC_ERR_MAX_CAPACITY, ar'))
            \<longleftrightarrow> ar_capacity ar = CC_MAX_ELEMENTS)
         \<and> (\<forall>ar'. cc_array_add_at CC_MAX_ELEMENTS ok ar e index = Some (CC_OK, ar') \<longrightarrow>
                (\<exists>nc. scaled_capacity (ar_capacity ar) (ar_exp_factor ar) = Some nc
                     \<and> ar_capacity ar' = grown_capacity CC_MAX_ELEMENTS (ar_capacity ar) nc)
                \<and> ar_capacity ar < ar_capacity ar'
                \<and> ar_size ar' \<le> ar_capacity ar'))"
proof -
  have c1: "(\<exists>ar'. expand_capacity CC_MAX_ELEMENTS ok ar = Some (CC_ERR_MAX_CAPACITY, ar'))
            \<longleftrightarrow> ar_capacity ar = CC_MAX_ELEMENTS"
    by (rule expand_capacity_max_iff)
  have c2: "\<forall>ar'. expand_capacity CC_MAX_ELEMENTS ok ar = Some (CC_OK, ar') \<longrightarrow>
           (\<exists>nc. scaled_capacity (ar_capacity ar) (ar_exp_factor ar) = Some nc
                \<and> ar_capacity ar' = grown_capacity CC_MAX_ELEMENTS (ar_capacity ar) nc)
           \<and> ar_capacity ar < ar_capacity ar'"
    using expand_capacity_okD(3) expand_capacity_grows(1) [OF sz mx] by blast
  have c3: "\<forall>st ar'. expand_capacity CC_MAX_ELEMENTS ok ar = Some (st, ar') \<longrightarrow>
           ar_size ar' = ar_size ar \<and> ar_size ar' \<le> ar_capacity ar'"
    using expand_capacity_keeps_room [OF sz mx] by blast
  have c4: "(\<exists>ar'. expand_capacity CC_MAX_ELEMENTS True ar = Some (CC_OK, ar')
                 \<and> length (ar_buffer ar') = unat (ar_capacity ar')
                 \<and> take (unat (ar_size ar)) (ar_buffer ar')
                     = take (unat (ar_size ar)) (ar_buffer ar))
           \<and> (\<exists>ar'. expand_capacity CC_MAX_ELEMENTS False ar = Some (CC_ERR_ALLOC, ar'))
           \<and> (ar_capacity ar \<le> ar_size ar \<and> index \<le> ar_size ar \<longrightarrow>
                (\<exists>ar'. cc_array_add_at CC_MAX_ELEMENTS True ar e index = Some (CC_OK, ar')))"
    if h: "ar_capacity ar \<noteq> CC_MAX_ELEMENTS
             \<and> scaled_capacity (ar_capacity ar) (ar_exp_factor ar) = Some nc
             \<and> unat (grown_capacity CC_MAX_ELEMENTS (ar_capacity ar) nc) < 2 ^ 61" for nc
  proof -
    from h have ne: "ar_capacity ar \<noteq> CC_MAX_ELEMENTS"
      and nc: "scaled_capacity (ar_capacity ar) (ar_exp_factor ar) = Some nc"
      and small: "unat (grown_capacity CC_MAX_ELEMENTS (ar_capacity ar) nc) < 2 ^ 61"
      by simp_all
    from expand_capacity_returns [OF sz mx len ne nc small]
    have "\<exists>ar'. expand_capacity CC_MAX_ELEMENTS True ar = Some (CC_OK, ar')
                 \<and> length (ar_buffer ar') = unat (ar_capacity ar')
                 \<and> take (unat (ar_size ar)) (ar_buffer ar')
                     = take (unat (ar_size ar)) (ar_buffer ar)"
      by blast
    moreover have "\<exists>ar'. expand_capacity CC_MAX_ELEMENTS False ar = Some (CC_ERR_ALLOC, ar')"
      using expand_capacity_alloc_fails [OF ne nc] by blast
    moreover have "\<exists>ar'. cc_array_add_at CC_MAX_ELEMENTS True ar e index = Some (CC_OK, ar')"
      if "ar_capacity ar \<le> ar_size ar \<and> index \<le> ar_size ar"
      using add_at_full_returns [OF sz mx len ne nc small] that by blast
    ultimately show ?thesis by blast
  qed
  have c5: "scaled_capacity (ar_capacity ar) (ar_exp_factor ar) = Some (2 * ar_capacity ar)"
    if "ar_exp_factor ar = DEFAULT_EXPANSION_FACTOR \<and> unat (ar_capacity ar) < 2 ^ 24"
    using that scaled_capacity_default by simp
  have c6: "cc_array_add_at CC_MAX_ELEMENTS ok ar e (ar_size ar)
        = cc_array_add CC_MAX_ELEMENTS ok ar e"
    by (rule add_at_append)
  have c7: "((\<exists>ar'. cc_array_add_at CC_MAX_ELEMENTS ok ar e index = Some (CC_ERR_MAX_CAPACITY, ar'))
            \<longleftrightarrow> ar_capacity ar = CC_MAX_ELEMENTS)
         \<and> (\<forall>ar'. cc_array_add_at CC_MAX_ELEMENTS ok ar e index = Some (CC_OK, ar') \<longrightarrow>
                (\<exists>nc. scaled_capacity (ar_capacity ar) (ar_exp_factor ar) = Some nc
                     \<and> ar_capacity ar' = grown_capacity CC_MAX_ELEMENTS (ar_capacity ar) nc)
                \<and> ar_capacity ar < ar_capacity ar'
                \<and> ar_size ar' \<le> ar_capacity ar')"
    if h: "ar_capacity ar \<le> ar_size ar \<and> index \<le> ar_size ar"
  proof -
    from h have full: "ar_capacity ar \<le> ar_size ar" and le: "index \<le> ar_size ar"
      by simp_all
    show ?thesis
      using add_at_full_max_iff [OF full le, of CC_MAX_ELEMENTS ok e]
        add_at_full_okD [OF sz mx full le, of ok e]
      by blast
  qed
  from c1 c2 c3 c4 c5 c6 c7 show ?thesis by blast
qed

theorem expand_capacity_growth_witness:
  "ar_size ar_full8 \<le> ar_capacity ar_full8
   \<and> ar_capacity ar_full8 \<le> 0xFFFFFFFFFFFFFFFE
   \<and> unat (ar_size ar_full8) \<le> length (ar_buffer ar_full8)
   \<and> ar_capacity ar_full8 \<noteq> 0xFFFFFFFFFFFFFFFE
   \<and> ar_exp_factor ar_full8 = DEFAULT_EXPANSION_FACTOR
   \<and> unat (ar_capacity ar_full8) < 2 ^ 24
   \<and> ar_capacity ar_full8 \<le> ar_size ar_full8
   \<and> 3 \<le> ar_size ar_full8
   \<and> scaled_capacity (ar_capacity ar_full8) (ar_exp_factor ar_full8) = Some 16
   \<and> unat (grown_capacity 0xFFFFFFFFFFFFFFFE (ar_capacity ar_full8) 16) < 2 ^ 61
   \<and> (\<exists>ar'. expand_capacity 0xFFFFFFFFFFFFFFFE True ar_full8 = Some (CC_OK, ar')
          \<and> ar_capacity ar' = 16 \<and> length (ar_buffer ar') = 16 \<and> ar_size ar' = 8)
   \<and> (\<exists>ar'. cc_array_add_at 0xFFFFFFFFFFFFFFFE True ar_full8 9 3 = Some (CC_OK, ar')
          \<and> ar_capacity ar' = 16)
   \<and> ar_capacity ar_full8 = 8
   \<and> (\<exists>ar'. expand_capacity 8 True ar_full8 = Some (CC_ERR_MAX_CAPACITY, ar'))
   \<and> (\<exists>ar'. cc_array_add_at 8 True ar_full8 9 3 = Some (CC_ERR_MAX_CAPACITY, ar'))
   \<and> scaled_capacity 8 0 = Some 0
   \<and> grown_capacity 100 8 0 = 100
   \<and> (\<exists>ar'. expand_capacity 100 True (ar_full8\<lparr>ar_exp_factor := 0\<rparr>) = Some (CC_OK, ar')
          \<and> ar_capacity ar' = 100 \<and> length (ar_buffer ar') = 100)"
proof -
  have sz: "ar_size ar_full8 \<le> ar_capacity ar_full8"
    and mx: "ar_capacity ar_full8 \<le> 0xFFFFFFFFFFFFFFFE"
    and mx8: "ar_capacity ar_full8 \<le> 8"
    and len: "unat (ar_size ar_full8) \<le> length (ar_buffer ar_full8)"
    by (simp_all add: ar_full8_def)
  have facts: "ar_capacity ar_full8 \<noteq> 0xFFFFFFFFFFFFFFFE"
    "ar_exp_factor ar_full8 = DEFAULT_EXPANSION_FACTOR"
    "unat (ar_capacity ar_full8) < 2 ^ 24"
    "ar_capacity ar_full8 \<le> ar_size ar_full8"
    "3 \<le> ar_size ar_full8" "ar_capacity ar_full8 = 8" "ar_size ar_full8 = 8"
    by (simp_all add: ar_full8_def)
  note t = expand_capacity_growth [OF sz mx len, of True 3 9]
  note t8 = expand_capacity_growth [OF sz mx8 len, of True 3 9]
  from t facts have nc: "scaled_capacity (ar_capacity ar_full8) (ar_exp_factor ar_full8) = Some 16"
    by simp
  have g: "grown_capacity 0xFFFFFFFFFFFFFFFE (ar_capacity ar_full8) 16 = 16"
    by (simp add: grown_capacity_def facts)
  then have small: "unat (grown_capacity 0xFFFFFFFFFFFFFFFE (ar_capacity ar_full8) 16) < 2 ^ 61"
    by simp
  from t facts(1) nc small obtain ar1 where
    ex: "expand_capacity 0xFFFFFFFFFFFFFFFE True ar_full8 = Some (CC_OK, ar1)"
    and l1: "length (ar_buffer ar1) = unat (ar_capacity ar1)"
    by blast
  from t ex nc have cap1: "ar_capacity ar1 = 16" using g by auto
  from t ex have s1: "ar_size ar1 = 8" using facts(7) by auto
  from t facts(1,4,5) nc small obtain ar2 where
    add: "cc_array_add_at 0xFFFFFFFFFFFFFFFE True ar_full8 9 3 = Some (CC_OK, ar2)"
    by blast
  from t add facts(4,5) nc have cap2: "ar_capacity ar2 = 16" using g by auto
  from t8 facts(6) have m1: "\<exists>ar'. expand_capacity 8 True ar_full8 = Some (CC_ERR_MAX_CAPACITY, ar')"
    by blast
  from t8 facts(4,5,6)
  have m2: "\<exists>ar'. cc_array_add_at 8 True ar_full8 9 3 = Some (CC_ERR_MAX_CAPACITY, ar')"
    by blast
  from ex cap1 l1 s1 have e1: "\<exists>ar'. expand_capacity 0xFFFFFFFFFFFFFFFE True ar_full8 = Some (CC_OK, ar')
          \<and> ar_capacity ar' = 16 \<and> length (ar_buffer ar') = 16 \<and> ar_size ar' = 8"
    by simp
  from add cap2 have e2: "\<exists>ar'. cc_array_add_at 0xFFFFFFFFFFFFFFFE True ar_full8 9 3 = Some (CC_OK, ar')
          \<and> ar_capacity ar' = 16"
    by simp
  define ar0 where "ar0 = ar_full8\<lparr>ar_exp_factor := 0\<rparr>"
  have sz0: "ar_size ar0 \<le> ar_capacity ar0" and mx0: "ar_capacity ar0 \<le> 100"
    and len0: "unat (ar_size ar0) \<le> length (ar_buffer ar0)"
    and ne0: "ar_capacity ar0 \<noteq> 100"
    and cap0: "ar_capacity ar0 = 8" and f0: "ar_exp_factor ar0 = 0"
    by (simp_all add: ar0_def ar_full8_def)
  have nc0: "scaled_capacity 8 0 = Some 0" by (rule scaled_capacity_zero)
  have g0: "grown_capacity 100 8 0 = 100" by (simp add: grown_capacity_def)
  have nc0': "scaled_capacity (ar_capacity ar0) (ar_exp_factor ar0) = Some 0"
    by (simp add: cap0 f0 nc0)
  have g0': "grown_capacity 100 (ar_capacity ar0) 0 = 100" by (simp add: cap0 g0)
  then have small0: "unat (grown_capacity 100 (ar_capacity ar0) 0) < 2 ^ 61" by simp
  note t0 = expand_capacity_growth [OF sz0 mx0 len0, of True 3 9]
  from t0 ne0 nc0' small0 obtain ar3 where
    ex0: "expand_capacity 100 True ar0 = Some (CC_OK, ar3)"
    and l3: "length (ar_buffer ar3) = unat (ar_capacity ar3)"
    by blast
  from t0 ex0 have "\<exists>nc. scaled_capacity (ar_capacity ar0) (ar_exp_factor ar0) = Some nc
      \<and> ar_capacity ar3 = grown_capacity 100 (ar_capacity ar0) nc"
    by blast
  with nc0' g0' have cap3: "ar_capacity ar3 = 100" by auto
  from ex0 cap3 l3
  have e0: "\<exists>ar'. expand_capacity 100 True (ar_full8\<lparr>ar_exp_factor := 0\<rparr>) = Some (CC_OK, ar')
          \<and> ar_capacity ar' = 100 \<and> length (ar_buffer ar') = 100"
    by (simp add: ar0_def)
  from sz mx len facts nc small e1 e2 m1 m2 nc0 g0 e0 show ?thesis by blast
qed

text \<open>
  C1 as stated fails: the new capacity is not always \<open>floor(capacity * growth_factor)\<close>.
  A full array of \<open>2^24 + 1 = 16777217\<close> elements with the default factor 2.0 grows to
  capacity 33554432, not to \<open>2 * 16777217 = 33554434\<close>, because the capacity is rounded
  to \<open>float\<close> before it is multiplied.
\<close>

theorem expand_capacity_rounds_capacity:
  "array_wf ar_big
   \<and> float_decode (ar_exp_factor ar_big) = Fin False (2 ^ 23) (- 22)
   \<and> fp_trunc (2 ^ 23) (- 22) = 2
   \<and> status_capacity (cc_array_add 0xFFFFFFFFFFFFFFFE True ar_big 5) = Some (CC_OK, 33554432)
   \<and> 2 * unat (ar_capacity ar_big) = 33554434"
  by (simp add: array_wf_def ar_big_def float_decode_default fp_trunc_def list_all_iff
        status_capacity_def cc_array_add_def expand_capacity_def scaled_capacity_default_big
        malloc_def memcpy_def buf_write_def slots_def sizeof_ptr_def)

text \<open>
  C4. On a well-formed array whose capacity is within \<open>CC_MAX_ELEMENTS\<close>:
  \<open>add_at\<close> at index \<open>size\<close> is \<open>add\<close>; it reports \<open>CC_ERR_OUT_OF_RANGE\<close> exactly
  when \<open>index > size\<close>; when there is room it succeeds for every \<open>index \<le> size\<close>; and
  whenever it succeeds the index was at most \<open>size\<close>, the size has grown by one
  (without wrapping), the elements are the old ones with \<open>e\<close> inserted at \<open>index\<close> (so
  the elements formerly at \<open>[index, size)\<close> are one position further), \<open>get_at\<close> of
  \<open>index\<close> returns \<open>e\<close>, and \<open>get_at\<close> reads the listed elements. The size is then
  at most the capacity, and the array is well formed again unless the call has expanded
  it to a capacity of \<open>2^61\<close> or more, whose byte count wraps.
\<close>

theorem array_add_at_inserts:
  assumes wf: "array_wf ar" and mx: "ar_capacity ar \<le> CC_MAX_ELEMENTS"
  shows "cc_array_add_at CC_MAX_ELEMENTS ok ar e (ar_size ar) = cc_array_add CC_MAX_ELEMENTS ok ar e
    \<and> ((\<exists>ar'. cc_array_add_at CC_MAX_ELEMENTS ok ar e index = Some (CC_ERR_OUT_OF_RANGE, ar'))
         \<longleftrightarrow> ar_size ar < index)
    \<and> (index \<le> ar_size ar \<and> ar_size ar < ar_capacity ar
         \<longrightarrow> (\<exists>ar'. cc_array_add_at CC_MAX_ELEMENTS ok ar e index = Some (CC_OK, ar')))
    \<and> (\<forall>ar'. cc_array_add_at CC_MAX_ELEMENTS ok ar e index = Some (CC_OK, ar')
         \<longrightarrow> index \<le> ar_size ar
           \<and> unat (ar_size ar') = unat (ar_size ar) + 1
           \<and> array_elems ar'
               = take (unat index) (array_elems ar) @ e # drop (unat index) (array_elems ar)
           \<and> cc_array_get_at ar' index (Out x) = Some (CC_OK, Out e)
           \<and> (\<forall>j. j < ar_size ar' \<longrightarrow>
                 cc_array_get_at ar' j (Out x) = Some (CC_OK, Out (array_elems ar' ! unat j)))
           \<and> ar_size ar' \<le> ar_capacity ar'
           \<and> (ar_size ar < ar_capacity ar \<or> unat (ar_capacity ar') < 2 ^ 61
                 \<longrightarrow> array_wf ar'))"
proof (intro conjI allI impI)
  show "cc_array_add_at CC_MAX_ELEMENTS ok ar e (ar_size ar) = cc_array_add CC_MAX_ELEMENTS ok ar e"
    by (rule add_at_append)
  show "(\<exists>ar'. cc_array_add_at CC_MAX_ELEMENTS ok ar e index = Some (CC_ERR_OUT_OF_RANGE, ar'))
         \<longleftrightarrow> ar_size ar < index"
  proof
    assume "\<exists>ar'. cc_array_add_at CC_MAX_ELEMENTS ok ar e index = Some (CC_ERR_OUT_OF_RANGE, ar')"
    then obtain ar' where "cc_array_add_at CC_MAX_ELEMENTS ok ar e index = Some (CC_ERR_OUT_OF_RANGE, ar')"
      by blast
    with add_at_status [of index ar CC_MAX_ELEMENTS ok e ar'] have "\<not> index \<le> ar_size ar"
      by blast
    then show "ar_size ar < index" by simp
  next
    assume "ar_size ar < index"
    then show "\<exists>ar'. cc_array_add_at CC_MAX_ELEMENTS ok ar e index = Some (CC_ERR_OUT_OF_RANGE, ar')"
      using add_at_out_of_range [of ar index CC_MAX_ELEMENTS ok e] by blast
  qed
  show "\<exists>ar'. cc_array_add_at CC_MAX_ELEMENTS ok ar e index = Some (CC_OK, ar')"
    if "index \<le> ar_size ar \<and> ar_size ar < ar_capacity ar"
    using that add_at_room_defined [OF wf] by blast
next
  fix ar'
  assume add: "cc_array_add_at CC_MAX_ELEMENTS ok ar e index = Some (CC_OK, ar')"
  show le: "index \<le> ar_size ar"
    using add add_at_out_of_range [of ar index CC_MAX_ELEMENTS ok e] by (auto simp: not_less [symmetric])
  define E where "E = array_elems ar"
  have lenE: "length E = unat (ar_size ar)"
    using wf by (simp add: E_def array_elems_def array_wf_def word_le_nat_alt)
  have main: "unat (ar_size ar') = unat (ar_size ar) + 1
        \<and> array_elems ar' = take (unat index) E @ e # drop (unat index) E
        \<and> ar_size ar' \<le> ar_capacity ar'
        \<and> unat (ar_size ar') \<le> length (ar_buffer ar')
        \<and> list_all (\<lambda>slot. slot \<noteq> None) (take (unat (ar_size ar')) (ar_buffer ar'))
        \<and> (ar_size ar < ar_capacity ar \<or> unat (ar_capacity ar') < 2 ^ 61 \<longrightarrow> array_wf ar')"
  proof (cases "index = ar_size ar")
    case True
    with add have "cc_array_add CC_MAX_ELEMENTS ok ar e = Some (CC_OK, ar')"
      by (simp add: add_at_append)
    note r = add_elems [OF wf mx this]
    from r(3) True lenE have "array_elems ar' = take (unat index) E @ e # drop (unat index) E"
      by (simp add: E_def)
    with r(2,4,5,6,7) show ?thesis by blast
  next
    case False
    with le have "index < ar_size ar" by auto
    note r = add_at_elems [OF wf mx this add]
    from r(3) have "array_elems ar' = take (unat index) E @ e # drop (unat index) E"
      by (simp add: E_def)
    with r(2,4,5,6,7) show ?thesis by blast
  qed
  from main have holds: "unat (ar_size ar') \<le> length (ar_buffer ar')"
    "list_all (\<lambda>slot. slot \<noteq> None) (take (unat (ar_size ar')) (ar_buffer ar'))"
    by blast+
  from main show "unat (ar_size ar') = unat (ar_size ar) + 1"
    and elems: "array_elems ar' = take (unat index) (array_elems ar) @ e # drop (unat index) (array_elems ar)"
    and "ar_size ar' \<le> ar_capacity ar'"
    unfolding E_def by blast+
  from main show "array_wf ar'"
    if "ar_size ar < ar_capacity ar \<or> unat (ar_capacity ar') < 2 ^ 61"
    using that by blast
  have all: "cc_array_get_at ar' j (Out x) = Some (CC_OK, Out (array_elems ar' ! unat j))"
    if "j < ar_size ar'" for j
    using holds that by (rule get_at_holds)
  then show "cc_array_get_at ar' j (Out x) = Some (CC_OK, Out (array_elems ar' ! unat j))"
    if "j < ar_size ar'" for j using that by simp
  have le_nat: "unat index \<le> unat (ar_size ar)" using le by (simp add: word_le_nat_alt)
  moreover from main have "unat (ar_size ar') = unat (ar_size ar) + 1" by blast
  ultimately have "index < ar_size ar'" by (simp add: word_less_nat_alt)
  then have "cc_array_get_at ar' index (Out x) = Some (CC_OK, Out (array_elems ar' ! unat index))"
    by (rule all)
  moreover have "array_elems ar' ! unat index = e"
    using le_nat lenE by (simp add: elems E_def nth_append)
  ultimately show "cc_array_get_at ar' index (Out x) = Some (CC_OK, Out e)"
    by simp
qed

theorem array_add_at_inserts_witness:
  "array_wf ar_abcd \<and> ar_capacity ar_abcd \<le> 0xFFFFFFFFFFFFFFFE
   \<and> array_elems ar_abcd = [10, 11, 12, 13]
   \<and> (\<exists>ar'. cc_array_add_at 0xFFFFFFFFFFFFFFFE True ar_abcd 99 1 = Some (CC_OK, ar')
          \<and> array_elems ar' = [10, 99, 11, 12, 13]
          \<and> unat (ar_size ar') = 5
          \<and> cc_array_get_at ar' 1 (Out 0) = Some (CC_OK, Out 99)
          \<and> cc_array_get_at ar' 2 (Out 0) = Some (CC_OK, Out 11))
   \<and> (\<exists>ar'. cc_array_add_at 0xFFFFFFFFFFFFFFFE True ar_abcd 99 5
               = Some (CC_ERR_OUT_OF_RANGE, ar'))"
proof -
  have wf: "array_wf ar_abcd" and mx: "ar_capacity ar_abcd \<le> 0xFFFFFFFFFFFFFFFE"
    and el: "array_elems ar_abcd = [10, 11, 12, 13]"
    and room: "1 \<le> ar_size ar_abcd \<and> ar_size ar_abcd < ar_capacity ar_abcd"
    and out: "ar_size ar_abcd < 5"
    by (simp_all add: array_wf_def array_elems_def ar_abcd_def)
  note t1 = array_add_at_inserts [OF wf mx, of True 99 1 0]
  note t5 = array_add_at_inserts [OF wf mx, of True 99 5 0]
  from t1 room obtain ar' where
    add: "cc_array_add_at 0xFFFFFFFFFFFFFFFE True ar_abcd 99 1 = Some (CC_OK, ar')"
    by blast
  with t1 have r: "unat (ar_size ar') = unat (ar_size ar_abcd) + 1"
    "array_elems ar' = take (unat (1::size_t)) (array_elems ar_abcd) @ 99 # drop (unat (1::size_t)) (array_elems ar_abcd)"
    "cc_array_get_at ar' 1 (Out 0) = Some (CC_OK, Out 99)"
    "\<forall>j. j < ar_size ar' \<longrightarrow>
         cc_array_get_at ar' j (Out 0) = Some (CC_OK, Out (array_elems ar' ! unat j))"
    by blast+
  have sz: "unat (ar_size ar') = 5" using r(1) by (simp add: ar_abcd_def)
  have el': "array_elems ar' = [10, 99, 11, 12, 13]" using r(2) by (simp add: el)
  have "(2::size_t) < ar_size ar'" using sz by (simp add: word_less_nat_alt)
  with r(4) have "cc_array_get_at ar' 2 (Out 0) = Some (CC_OK, Out (array_elems ar' ! unat (2::size_t)))"
    by blast
  then have g2: "cc_array_get_at ar' 2 (Out 0) = Some (CC_OK, Out 11)"
    by (simp add: el')
  from t5 out have "\<exists>ar'. cc_array_add_at 0xFFFFFFFFFFFFFFFE True ar_abcd 99 5
               = Some (CC_ERR_OUT_OF_RANGE, ar')"
    by blast
  with wf mx el add sz el' r(3) g2 show ?thesis by blast
qed

text \<open>
  C10. An array returned by \<open>subarray\<close> of a well-formed array has growth factor
  \<open>+0.0\<close> (all-zero bits) whatever the factor of the source, and is full
  (\<open>size = capacity\<close>), so its next \<open>add\<close> expands: the scaled capacity is 0, which does
  not exceed the capacity, so the capacity stored is \<open>CC_MAX_ELEMENTS\<close> (and the call
  reports \<open>CC_ERR_MAX_CAPACITY\<close> if the capacity already was \<open>CC_MAX_ELEMENTS\<close>). When
  the allocation succeeds the call returns \<open>CC_OK\<close> if slot \<open>size\<close> is inside the buffer
  of \<open>CC_MAX_ELEMENTS * sizeof(void*)\<close> bytes, and is undefined else.
\<close>

theorem subarray_growth_factor_zero:
  assumes wf: "array_wf ar" and mx: "ar_capacity ar \<le> CC_MAX_ELEMENTS"
    and sub: "cc_array_subarray ok_ar ok_buff ar b e = Some (CC_OK, Some sub)"
  shows "ar_exp_factor sub = 0
    \<and> float_decode (ar_exp_factor sub) = Fin False 0 (- 149)
    \<and> array_wf sub \<and> ar_capacity sub \<le> CC_MAX_ELEMENTS
    \<and> ar_capacity sub = ar_size sub
    \<and> scaled_capacity (ar_capacity sub) (ar_exp_factor sub) = Some 0
    \<and> grown_capacity CC_MAX_ELEMENTS (ar_capacity sub) 0 = CC_MAX_ELEMENTS
    \<and> status_capacity (cc_array_add CC_MAX_ELEMENTS ok sub x)
        = (if ar_capacity sub = CC_MAX_ELEMENTS
           then Some (CC_ERR_MAX_CAPACITY, CC_MAX_ELEMENTS)
           else if \<not> ok then Some (CC_ERR_ALLOC, CC_MAX_ELEMENTS)
           else if unat (ar_size sub) < slots (CC_MAX_ELEMENTS * sizeof_ptr)
           then Some (CC_OK, CC_MAX_ELEMENTS)
           else None)"
proof -
  note r = subarray_result [OF wf sub]
  note w = subarray_wf [OF wf sub]
  have mx': "ar_capacity sub \<le> CC_MAX_ELEMENTS" using w(2) mx by simp
  have full: "ar_capacity sub \<le> ar_size sub" by (simp add: r(3))
  note add = zero_factor_add [OF w(1) mx' r(1) full]
  show ?thesis
    using r(1) r(3) w(1) mx' add
    by (simp add: float_decode_zero scaled_capacity_zero grown_capacity_def)
qed

theorem subarray_growth_factor_zero_witness:
  "array_wf ar_full8 \<and> ar_capacity ar_full8 \<le> 0xFFFFFFFFFFFFFFFE
   \<and> ar_exp_factor ar_full8 \<noteq> 0
   \<and> cc_array_subarray True True ar_full8 1 2
       = Some (CC_OK, Some \<lparr>ar_size = 2, ar_capacity = 2, ar_exp_factor = 0,
                              ar_buffer = [Some 2, Some 3] @ replicate 6 None\<rparr>)
   \<and> status_capacity (cc_array_add 0xFFFFFFFFFFFFFFFE True
         \<lparr>ar_size = 2, ar_capacity = 2, ar_exp_factor = 0,
          ar_buffer = [Some 2, Some 3] @ replicate 6 None\<rparr> 9)
       = Some (CC_OK, 0xFFFFFFFFFFFFFFFE)"
proof -
  have wf: "array_wf ar_full8"
    by (simp add: array_wf_def ar_full8_def)
  have mx: "ar_capacity ar_full8 \<le> 0xFFFFFFFFFFFFFFFE"
    by (simp add: ar_full8_def)
  have sub: "cc_array_subarray True True ar_full8 1 2
       = Some (CC_OK, Some \<lparr>ar_size = 2, ar_capacity = 2, ar_exp_factor = 0,
                              ar_buffer = [Some 2, Some 3] @ replicate 6 None\<rparr>)"
    by (simp add: cc_array_subarray_def ar_full8_def malloc_def memcpy_def Let_def)
  have "ar_exp_factor ar_full8 \<noteq> 0"
    by (simp add: ar_full8_def DEFAULT_EXPANSION_FACTOR_def)
  moreover have "slots (0xFFFFFFFFFFFFFFFE * sizeof_ptr) = 0x1FFFFFFFFFFFFFFE"
    by (simp add: slots_def sizeof_ptr_def)
  ultimately show ?thesis
    using wf mx sub subarray_growth_factor_zero [OF wf mx sub, of True 9]
    by simp
qed

lemma scaled_capacity_default_8: "scaled_capacity 8 DEFAULT_EXPANSION_FACTOR = Some 16"
  by (simp add: scaled_capacity_def float_of_size_def float_decode_def
        DEFAULT_EXPANSION_FACTOR_def fp_round_def round_even_def fp_trunc_def bitlen.simps Let_def)

text \<open>
  C2. The claim: after a successful \<open>trim_capacity\<close> the capacity is \<open>max(size, 1)\<close>,
  so it is at least 1 also for an empty array. On the array that \<open>cc_array_new\<close>
  returns (size 0, capacity 8) the function asks \<open>calloc\<close> for zero slots; when that
  allocation succeeds it copies one slot into the zero-slot buffer, which is outside the
  buffer, on its way to setting the capacity to \<open>ar->size = 0\<close>; when it fails the
  call reports \<open>CC_ERR_ALLOC\<close>. No outcome leaves an array of capacity 1.
\<close>

theorem trim_capacity_empty_array:
  "cc_array_new True True = (CC_OK, Some ar_empty)
   \<and> ar_size ar_empty = 0
   \<and> calloc True (unat (ar_size ar_empty)) = Some []
   \<and> cc_array_trim_capacity True ar_empty = None
   \<and> cc_array_trim_capacity False ar_empty = Some (CC_ERR_ALLOC, ar_empty)"
  by (simp add: cc_array_new_def cc_array_trim_capacity_def ar_empty_def malloc_def calloc_def
        memcpy_def DEFAULT_CAPACITY_def)

text \<open>
  C3. The claim: an operation that fails with \<open>CC_ERR_ALLOC\<close> leaves the container as
  it was. \<open>expand_capacity\<close> stores the new capacity before it allocates: adding to a
  full array of capacity 8 when the allocation fails returns \<open>CC_ERR_ALLOC\<close> and leaves
  capacity 16 over the old buffer of 8 slots. The next \<open>add\<close> then sees room and
  writes slot 8 of that buffer, outside it.
\<close>

theorem add_alloc_failure_changes_capacity:
  "cc_array_add 0xFFFFFFFFFFFFFFFE False ar_full8 9
     = Some (CC_ERR_ALLOC, ar_full8\<lparr>ar_capacity := 16\<rparr>)
   \<and> ar_full8\<lparr>ar_capacity := 16\<rparr> \<noteq> ar_full8
   \<and> cc_array_add 0xFFFFFFFFFFFFFFFE True (ar_full8\<lparr>ar_capacity := 16\<rparr>) 9 = None"
  by (simp add: cc_array_add_def expand_capacity_def ar_full8_def scaled_capacity_default_8
        malloc_def buf_write_def slots_def sizeof_ptr_def)

section \<open>Properties of the singly-linked list\<close>

subsection \<open>Chains of nodes\<close>

lemma load_upd_other [simp]: "p \<noteq> a \<Longrightarrow> load (h(a := v)) p = load h p"
  by (simp add: load_def)

lemma load_Some: "load h p = Some nd \<longleftrightarrow> p \<noteq> NULL \<and> h p = Some nd"
  by (simp add: load_def)

lemma load_None_NULL [simp]: "load h NULL = None"
  by (simp add: load_def)

lemma lseg_NULL [simp]: "lseg h NULL ns q \<longleftrightarrow> ns = [] \<and> q = NULL"
  by (cases ns) auto

lemma lseg_Cons_iff:
  "lseg h p (a # as) q \<longleftrightarrow> p = a \<and> (\<exists>nd. load h a = Some nd \<and> lseg h (sn_next nd) as q)"
  by (auto split: option.splits)

lemma lseg_append: "lseg h p (as @ bs) q \<longleftrightarrow> (\<exists>m. lseg h p as m \<and> lseg h m bs q)"
  by (induction as arbitrary: p) (auto split: option.splits)

lemma lseg_snoc:
  "lseg h p (as @ [a]) q \<longleftrightarrow> lseg h p as a \<and> (\<exists>nd. load h a = Some nd \<and> sn_next nd = q)"
  by (auto simp: lseg_append split: option.splits)

lemma lseg_allocated: "lseg h p ns q \<Longrightarrow> a \<in> set ns \<Longrightarrow> \<exists>nd. load h a = Some nd"
  by (induction ns arbitrary: p) (auto split: option.splits)

lemma lseg_not_NULL: "lseg h p ns q \<Longrightarrow> NULL \<notin> set ns"
  using lseg_allocated [of h p ns q NULL] by auto

lemma lseg_frame: "a \<notin> set ns \<Longrightarrow> lseg (h(a := v)) p ns q \<longleftrightarrow> lseg h p ns q"
proof (induction ns arbitrary: p)
  case Nil
  then show ?case by simp
next
  case (Cons b bs)
  then have ne: "b \<noteq> a" and notin: "a \<notin> set bs" by auto
  from ne have ld: "load (h(a := v)) b = load h b" by simp
  show ?case
  proof (cases "load h b")
    case None
    show ?thesis by (simp only: lseg.simps ld None option.case)
  next
    case (Some nd)
    show ?thesis by (simp only: lseg.simps ld Some option.case Cons.IH [OF notin])
  qed
qed

lemma lseg_unique: "lseg h p as NULL \<Longrightarrow> lseg h p bs NULL \<Longrightarrow> as = bs"
proof (induction as arbitrary: p bs)
  case Nil
  then show ?case by simp
next
  case (Cons a as)
  from Cons.prems(1) have "p = a" and "a \<noteq> NULL" by (auto simp: load_Some split: option.splits)
  with Cons.prems(2) obtain bs' where bs: "bs = a # bs'" by (cases bs) auto
  with Cons.prems Cons.IH show ?case by (auto split: option.splits)
qed

lemma lseg_hd_notin:
  assumes "lseg h p (a # as) NULL"
  shows "a \<notin> set as"
proof
  assume "a \<in> set as"
  then obtain xs ys where as: "as = xs @ a # ys" by (auto simp: in_set_conv_decomp)
  from assms obtain nd where nd: "load h a = Some nd" and tl: "lseg h (sn_next nd) as NULL"
    by (auto split: option.splits)
  from tl as have "lseg h a (a # ys) NULL" by (auto simp: lseg_append split: option.splits)
  with nd have "lseg h (sn_next nd) ys NULL" by simp
  with tl have "as = ys" by (rule lseg_unique)
  with as show False by simp
qed

lemma lseg_distinct: "lseg h p ns NULL \<Longrightarrow> distinct ns"
proof (induction ns arbitrary: p)
  case Nil
  then show ?case by simp
next
  case (Cons a as)
  from Cons.prems have "a \<notin> set as" by (rule lseg_hd_notin)
  moreover from Cons.prems Cons.IH have "distinct as" by (auto split: option.splits)
  ultimately show ?case by simp
qed

lemma distinct_nonnull_length:
  fixes ns :: "ptr list"
  assumes "distinct ns" and "NULL \<notin> set ns"
  shows "length ns < 2 ^ 64"
proof -
  have "set ns \<subseteq> UNIV - {NULL}" using assms(2) by auto
  then have "card (set ns) \<le> card (UNIV - {NULL} :: ptr set)"
    by (intro card_mono) simp_all
  also have "\<dots> = 2 ^ 64 - 1" by (simp add: card_Diff_singleton card_word)
  finally show ?thesis using assms(1) by (simp add: distinct_card)
qed

lemma lseg_length: "lseg h p ns NULL \<Longrightarrow> length ns < 2 ^ 64"
  by (intro distinct_nonnull_length lseg_distinct lseg_not_NULL)

lemma lseg_chain: "lseg h p ns q \<Longrightarrow> chain h (length ns) p = ns"
  by (induction ns arbitrary: p) (auto split: option.splits)

lemma lseg_walk: "lseg h p ns q \<Longrightarrow> walk h (length ns) p = Some q"
  by (induction ns arbitrary: p) (auto split: option.splits)

lemma walk_lseg: "walk h n p = Some q \<Longrightarrow> \<exists>ns. length ns = n \<and> lseg h p ns q"
proof (induction n arbitrary: p)
  case 0
  then show ?case by simp
next
  case (Suc n)
  then obtain nd where nd: "load h p = Some nd" and w: "walk h n (sn_next nd) = Some q"
    by (auto split: option.splits)
  from Suc.IH [OF w] obtain ns where "length ns = n" "lseg h (sn_next nd) ns q" by blast
  with nd have "length (p # ns) = Suc n \<and> lseg h p (p # ns) q" by simp
  then show ?case by blast
qed

lemma slist_abs_unat:
  assumes "slist_abs h l ns"
  shows "unat (sl_size l) = length ns"
proof -
  from assms have seg: "lseg h (sl_head l) ns NULL" and sz: "sl_size l = of_nat (length ns)"
    by (simp_all add: slist_abs_def)
  from seg have "length ns < 2 ^ 64" by (rule lseg_length)
  with sz show ?thesis by (simp add: unat_of_nat)
qed

lemma slist_abs_inv:
  assumes "slist_abs h l ns"
  shows "slist_inv h l"
proof (cases ns rule: rev_cases)
  case Nil
  with assms show ?thesis by (simp add: slist_abs_def slist_inv_def)
next
  case (snoc as a)
  from assms have seg: "lseg h (sl_head l) ns NULL" and tl: "sl_tail l = a"
    by (simp_all add: slist_abs_def snoc)
  have un: "unat (sl_size l) = Suc (length as)"
    using slist_abs_unat [OF assms] by (simp add: snoc)
  have nz: "sl_size l \<noteq> 0"
  proof
    assume "sl_size l = 0"
    then have "unat (sl_size l) = 0" by simp
    with un show False by simp
  qed
  from seg obtain nd where as: "lseg h (sl_head l) as a" and nd: "load h a = Some nd"
    and nx: "sn_next nd = NULL"
    by (auto simp: snoc lseg_snoc)
  from nd have "a \<noteq> NULL" by (simp add: load_Some)
  moreover have "walk h (length as) (sl_head l) = Some a" using as by (rule lseg_walk)
  ultimately show ?thesis
    using nz nd nx by (simp add: slist_inv_def un tl)
qed

lemma slist_inv_abs:
  assumes "slist_inv h l"
  shows "\<exists>ns. slist_abs h l ns"
proof (cases "sl_size l = 0")
  case True
  with assms have "slist_abs h l []" by (simp add: slist_inv_def slist_abs_def)
  then show ?thesis by blast
next
  case False
  with assms have w: "walk h (unat (sl_size l) - 1) (sl_head l) = Some (sl_tail l)"
    and nx: "map_option sn_next (load h (sl_tail l)) = Some NULL"
    by (simp_all add: slist_inv_def)
  from walk_lseg [OF w] obtain as where len: "length as = unat (sl_size l) - 1"
    and as: "lseg h (sl_head l) as (sl_tail l)" by blast
  from nx obtain nd where nd: "load h (sl_tail l) = Some nd" "sn_next nd = NULL" by auto
  with as have seg: "lseg h (sl_head l) (as @ [sl_tail l]) NULL" by (simp add: lseg_snoc)
  have "unat (sl_size l) \<noteq> 0" using False by (simp add: unat_eq_0)
  with len have "length (as @ [sl_tail l]) = unat (sl_size l)" by simp
  then have "sl_size l = of_nat (length (as @ [sl_tail l]))" by (simp del: length_append)
  with seg have "slist_abs h l (as @ [sl_tail l])" by (simp add: slist_abs_def del: length_append)
  then show ?thesis by blast
qed

lemma slist_inv_iff: "slist_inv h l \<longleftrightarrow> (\<exists>ns. slist_abs h l ns)"
  using slist_abs_inv slist_inv_abs by blast

lemma slist_abs_nodes:
  assumes "slist_abs h l ns"
  shows "slist_nodes h l = ns"
proof -
  from assms have "lseg h (sl_head l) ns NULL" by (simp add: slist_abs_def)
  then have "chain h (length ns) (sl_head l) = ns" by (rule lseg_chain)
  then show ?thesis by (simp add: slist_nodes_def slist_abs_unat [OF assms])
qed

lemma slist_abs_elems: "slist_abs h l ns \<Longrightarrow> slist_elems h l = map (node_data h) ns"
  by (simp add: slist_elems_def slist_abs_nodes)

subsection \<open>Adding nodes\<close>

lemma slist_abs_empty_iff:
  assumes "slist_abs h l ns"
  shows "sl_size l = 0 \<longleftrightarrow> ns = []"
proof -
  have "unat (sl_size l) = length ns" using assms by (rule slist_abs_unat)
  then show ?thesis by (metis length_0_conv unat_eq_0)
qed

lemma slist_abs_head: "slist_abs h l (a # as) \<Longrightarrow> sl_head l = a"
  by (simp add: slist_abs_def)

lemma slist_abs_fresh:
  assumes "slist_abs h l ns" and "h new = None"
  shows "new \<notin> set ns"
proof
  assume "new \<in> set ns"
  moreover from assms(1) have "lseg h (sl_head l) ns NULL" by (simp add: slist_abs_def)
  ultimately obtain nd where "load h new = Some nd" using lseg_allocated by blast
  with assms(2) show False by (simp add: load_Some)
qed

lemma lseg_next_cong:
  assumes "\<And>a. a \<in> set ns \<Longrightarrow> map_option sn_next (load h' a) = map_option sn_next (load h a)"
  shows "lseg h' p ns q \<longleftrightarrow> lseg h p ns q"
  using assms
proof (induction ns arbitrary: p)
  case Nil
  then show ?case by simp
next
  case (Cons b bs)
  have nx: "map_option sn_next (load h' b) = map_option sn_next (load h b)"
    by (rule Cons.prems) simp
  have ih: "lseg h' x bs q \<longleftrightarrow> lseg h x bs q" for x
    by (rule Cons.IH) (simp add: Cons.prems)
  show ?case
  proof (cases "load h b")
    case None
    with nx have "load h' b = None" by simp
    with None show ?thesis by (simp only: lseg.simps option.case)
  next
    case (Some nd)
    with nx obtain nd' where "load h' b = Some nd'" "sn_next nd' = sn_next nd" by auto
    with Some ih show ?thesis by (simp only: lseg.simps option.case)
  qed
qed

lemma lseg_frameI: "a \<notin> set ns \<Longrightarrow> lseg h p ns q \<Longrightarrow> lseg (h(a := v)) p ns q"
  using lseg_frame by blast

lemma store_data_new:
  "new \<noteq> NULL \<Longrightarrow> store_data (calloc_node h new) new e
     = Some (h(new \<mapsto> \<lparr>sn_data = e, sn_next = NULL\<rparr>))"
  by (simp add: store_data_def calloc_node_def load_def)

lemma store_next_eq:
  "load h p = Some nd \<Longrightarrow> store_next h p q = Some (h(p \<mapsto> nd\<lparr>sn_next := q\<rparr>))"
  by (simp add: store_next_def)

lemma word_of_nat_Suc: "(of_nat (Suc n) :: size_t) = of_nat n + 1"
  by simp

lemma add_first_abs:
  assumes abs: "slist_abs h l ns" and new: "new \<noteq> NULL" and fresh: "h new = None"
  shows "\<exists>h' l'. cc_slist_add_first h l e new = Some (CC_OK, h', l')
           \<and> slist_abs h' l' (new # ns)
           \<and> h' = h(new \<mapsto> \<lparr>sn_data = e, sn_next = sl_head l\<rparr>)"
proof -
  define h' where "h' = h(new \<mapsto> \<lparr>sn_data = e, sn_next = sl_head l\<rparr>)"
  have notin: "new \<notin> set ns" using abs fresh by (rule slist_abs_fresh)
  from abs have seg: "lseg h (sl_head l) ns NULL" and sz: "sl_size l = of_nat (length ns)"
    and tl: "sl_tail l = (if ns = [] then NULL else last ns)"
    by (simp_all add: slist_abs_def)
  have seg': "lseg h' (sl_head l) ns NULL"
    unfolding h'_def using notin seg by (rule lseg_frameI)
  have ld: "load h' new = Some \<lparr>sn_data = e, sn_next = sl_head l\<rparr>"
    using new by (simp add: h'_def load_def)
  have seg_new: "lseg h' new (new # ns) NULL"
    using seg' by (simp only: lseg.simps ld option.case snode.simps)
  show ?thesis
  proof (cases "ns = []")
    case True
    with seg have hd: "sl_head l = NULL" by simp
    from True sz have z: "sl_size l = 0" by simp
    have res: "cc_slist_add_first h l e new
          = Some (CC_OK, h', l\<lparr>sl_head := new, sl_tail := new, sl_size := sl_size l + 1\<rparr>)"
      using new z by (simp add: cc_slist_add_first_def store_data_new h'_def hd)
    have "slist_abs h' (l\<lparr>sl_head := new, sl_tail := new, sl_size := sl_size l + 1\<rparr>) (new # ns)"
      using seg_new True z by (simp add: slist_abs_def)
    with res show ?thesis by (simp add: h'_def)
  next
    case False
    then have nz: "sl_size l \<noteq> 0" using slist_abs_empty_iff [OF abs] by simp
    have res: "cc_slist_add_first h l e new
          = Some (CC_OK, h', l\<lparr>sl_head := new, sl_size := sl_size l + 1\<rparr>)"
      using new nz
      by (simp add: cc_slist_add_first_def store_data_new store_next_def load_def h'_def)
    have "slist_abs h' (l\<lparr>sl_head := new, sl_size := sl_size l + 1\<rparr>) (new # ns)"
      using seg_new False sz tl by (simp add: slist_abs_def)
    with res show ?thesis by (simp add: h'_def)
  qed
qed

lemma slist_abs_snoc:
  assumes "slist_abs h l (as @ [t])"
  obtains nd where "sl_tail l = t" and "lseg h (sl_head l) as t" and "load h t = Some nd"
    and "sn_next nd = NULL" and "t \<notin> set as" and "t \<noteq> NULL"
proof -
  from assms have seg: "lseg h (sl_head l) (as @ [t]) NULL" and tl: "sl_tail l = t"
    by (simp_all add: slist_abs_def)
  from seg obtain nd where "lseg h (sl_head l) as t" "load h t = Some nd" "sn_next nd = NULL"
    by (auto simp: lseg_snoc)
  moreover from seg have "distinct (as @ [t])" by (rule lseg_distinct)
  then have "t \<notin> set as" by simp
  moreover from seg have "NULL \<notin> set (as @ [t])" by (rule lseg_not_NULL)
  then have "t \<noteq> NULL" by auto
  ultimately show ?thesis using tl that by blast
qed

lemma add_last_abs:
  assumes abs: "slist_abs h l ns" and new: "new \<noteq> NULL" and fresh: "h new = None"
  shows "\<exists>h' l'. cc_slist_add_last h l e new = Some (CC_OK, h', l')
           \<and> slist_abs h' l' (ns @ [new])
           \<and> (\<forall>p. p \<noteq> new \<longrightarrow> node_data h' p = node_data h p)
           \<and> node_data h' new = e
           \<and> (\<forall>p. p \<noteq> new \<longrightarrow> p \<noteq> sl_tail l \<longrightarrow> h' p = h p)
           \<and> h' new \<noteq> None \<and> (\<forall>p. h p \<noteq> None \<longrightarrow> h' p \<noteq> None)"
proof -
  define h1 where "h1 = h(new \<mapsto> \<lparr>sn_data = e, sn_next = NULL\<rparr>)"
  have notin: "new \<notin> set ns" using abs fresh by (rule slist_abs_fresh)
  from abs have sz: "sl_size l = of_nat (length ns)" by (simp add: slist_abs_def)
  have ld_new: "load h1 new = Some \<lparr>sn_data = e, sn_next = NULL\<rparr>"
    using new by (simp add: h1_def load_def)
  show ?thesis
  proof (cases ns rule: rev_cases)
    case Nil
    with sz have z: "sl_size l = 0" by simp
    have res: "cc_slist_add_last h l e new
          = Some (CC_OK, h1, l\<lparr>sl_head := new, sl_tail := new, sl_size := sl_size l + 1\<rparr>)"
      using new z by (simp add: cc_slist_add_last_def store_data_new h1_def)
    have "lseg h1 new [new] NULL"
      by (simp only: lseg.simps ld_new option.case snode.simps)
    then have "slist_abs h1 (l\<lparr>sl_head := new, sl_tail := new, sl_size := sl_size l + 1\<rparr>) (ns @ [new])"
      using Nil z by (simp add: slist_abs_def)
    moreover have "\<forall>p. p \<noteq> new \<longrightarrow> h1 p = h p" by (simp add: h1_def)
    moreover have "node_data h1 new = e" by (simp add: h1_def node_data_def)
    ultimately show ?thesis using res by (auto simp: node_data_def h1_def)
  next
    case (snoc as t)
    from abs obtain nd where tl: "sl_tail l = t" and seg: "lseg h (sl_head l) as t"
      and ld: "load h t = Some nd" and nx: "sn_next nd = NULL" and t_as: "t \<notin> set as"
      and t0: "t \<noteq> NULL"
      unfolding snoc by (rule slist_abs_snoc)
    from notin have t_new: "t \<noteq> new" and new_as: "new \<notin> set as" by (auto simp: snoc)
    have nz: "sl_size l \<noteq> 0" using slist_abs_empty_iff [OF abs] by (simp add: snoc)
    define h2 where "h2 = h1(t \<mapsto> nd\<lparr>sn_next := new\<rparr>)"
    from t_new ld have ld1: "load h1 t = Some nd" by (simp add: h1_def)
    have res: "cc_slist_add_last h l e new
          = Some (CC_OK, h2, l\<lparr>sl_tail := new, sl_size := sl_size l + 1\<rparr>)"
      using new nz ld1
      by (simp add: cc_slist_add_last_def store_data_new store_next_eq h1_def [symmetric]
            h2_def tl)
    have "lseg h1 (sl_head l) as t" unfolding h1_def using new_as seg by (rule lseg_frameI)
    then have s2: "lseg h2 (sl_head l) as t" unfolding h2_def using t_as by (rule lseg_frameI [rotated])
    have ld2t: "load h2 t = Some (nd\<lparr>sn_next := new\<rparr>)"
      using t0 by (simp add: h2_def load_def)
    have ld2n: "load h2 new = Some \<lparr>sn_data = e, sn_next = NULL\<rparr>"
      using t_new ld_new by (simp add: h2_def)
    have "lseg h2 (sl_head l) ((as @ [t]) @ [new]) NULL"
      using s2 ld2t ld2n by (simp add: lseg_append)
    then have "slist_abs h2 (l\<lparr>sl_tail := new, sl_size := sl_size l + 1\<rparr>) (ns @ [new])"
      using sz by (simp add: slist_abs_def snoc)
    moreover have "\<forall>p. p \<noteq> new \<longrightarrow> node_data h2 p = node_data h p"
      using ld by (auto simp: node_data_def h2_def h1_def load_Some)
    moreover have "node_data h2 new = e"
      using t_new by (simp add: node_data_def h2_def h1_def)
    moreover have "\<forall>p. p \<noteq> new \<longrightarrow> p \<noteq> sl_tail l \<longrightarrow> h2 p = h p"
      by (simp add: h2_def h1_def tl)
    moreover have "h2 new \<noteq> None \<and> (\<forall>p. h p \<noteq> None \<longrightarrow> h2 p \<noteq> None)"
      by (simp add: h2_def h1_def)
    ultimately show ?thesis using res by blast
  qed
qed

subsection \<open>Finding and unlinking nodes\<close>

lemma get_node_at_loop_nth:
  assumes "lseg h node ms q" and "k < length ms" and "unat index = unat i + k"
  shows "get_node_at_loop h index i node prev
         = Some (CC_OK, ms ! k, if k = 0 then prev else ms ! (k - 1))"
  using assms
proof (induction k arbitrary: i node prev ms)
  case 0
  then have "\<not> i < index" by (simp add: word_less_nat_alt)
  moreover from 0 obtain a as where "ms = a # as" by (cases ms) auto
  with 0 have "ms ! 0 = node" by simp
  ultimately show ?case by (subst get_node_at_loop.simps) simp
next
  case (Suc k)
  then have lt: "i < index" by (simp add: word_less_nat_alt)
  from Suc.prems obtain a as where ms: "ms = a # as" by (cases ms) auto
  with Suc.prems obtain nd where a: "node = a" and ld: "load h a = Some nd"
    and seg: "lseg h (sn_next nd) as q"
    by (auto split: option.splits)
  have "unat (i + 1) = unat i + 1" using lt by (rule unat_succ_less)
  with Suc.prems have idx: "unat index = unat (i + 1) + k" by simp
  from Suc.prems ms have k: "k < length as" by simp
  have "get_node_at_loop h index (i + 1) (sn_next nd) node
        = Some (CC_OK, as ! k, if k = 0 then node else as ! (k - 1))"
    using seg k idx by (rule Suc.IH)
  moreover have "(if k = 0 then node else as ! (k - 1)) = ms ! k"
    by (cases k) (simp_all add: ms a)
  ultimately show ?case
    using lt ld by (subst get_node_at_loop.simps) (simp add: a ms)
qed

lemma get_node_at_abs:
  assumes abs: "slist_abs h l ns" and lt: "index < sl_size l"
  shows "get_node_at h l index x y
         = Some (CC_OK, ns ! unat index, if unat index = 0 then NULL else ns ! (unat index - 1))"
    and "unat index < length ns"
proof -
  from abs have seg: "lseg h (sl_head l) ns NULL" by (simp add: slist_abs_def)
  show k: "unat index < length ns"
    using lt slist_abs_unat [OF abs] by (simp add: word_less_nat_alt)
  have "\<not> sl_size l \<le> index" using lt by simp
  moreover have "get_node_at_loop h index 0 (sl_head l) NULL
        = Some (CC_OK, ns ! unat index, if unat index = 0 then NULL else ns ! (unat index - 1))"
    using seg k by (rule get_node_at_loop_nth) simp
  ultimately show "get_node_at h l index x y
         = Some (CC_OK, ns ! unat index, if unat index = 0 then NULL else ns ! (unat index - 1))"
    by (simp add: get_node_at_def)
qed

lemma get_node_at_out_of_range:
  "sl_size l \<le> index \<Longrightarrow> get_node_at h l index x y = Some (CC_ERR_OUT_OF_RANGE, x, y)"
  by (simp add: get_node_at_def)

lemma lseg_split:
  assumes "lseg h p (as @ a # bs) q"
  obtains nd where "lseg h p as a" and "load h a = Some nd" and "lseg h (sn_next nd) bs q"
  using assms by (auto simp: lseg_append split: option.splits)

lemma word_of_nat_pred: "(of_nat (Suc n) :: size_t) - 1 = of_nat n"
  by simp

lemma unlinkn_abs:
  assumes abs: "slist_abs h l (as @ node # bs)"
    and prev: "prev = (if as = [] then NULL else last as)"
  shows "\<exists>h' l'. unlinkn h l node prev = Some (node_data h node, h', l')
           \<and> slist_abs h' l' (as @ bs)
           \<and> (\<forall>p. p \<noteq> node \<longrightarrow> node_data h' p = node_data h p)"
proof -
  from abs have seg: "lseg h (sl_head l) (as @ node # bs) NULL"
    and sz: "sl_size l = of_nat (length (as @ node # bs))"
    and tl: "sl_tail l = last (node # bs)"
    by (simp_all add: slist_abs_def)
  from seg obtain nd where s_as: "lseg h (sl_head l) as node" and ld: "load h node = Some nd"
    and s_bs: "lseg h (sn_next nd) bs NULL"
    by (rule lseg_split)
  from seg have "distinct (as @ node # bs)" by (rule lseg_distinct)
  then have n_as: "node \<notin> set as" and n_bs: "node \<notin> set bs" and disj: "set as \<inter> set bs = {}"
    by auto
  from ld have n0: "node \<noteq> NULL" and hn: "h node = Some nd" by (simp_all add: load_Some)
  have nx: "sn_next nd = NULL \<longleftrightarrow> bs = []"
  proof (cases bs)
    case Nil
    with s_bs show ?thesis by simp
  next
    case (Cons b bs')
    with s_bs have "sn_next nd = b" "b \<noteq> NULL" by (auto simp: load_Some split: option.splits)
    with Cons show ?thesis by simp
  qed
  have dat: "node_data h node = sn_data nd" by (simp add: node_data_def hn)
  have size': "sl_size l - 1 = of_nat (length (as @ bs))" by (simp add: sz)
  show ?thesis
  proof (cases as rule: rev_cases)
    case Nil
    with prev have p0: "prev = NULL" by simp
    from Nil s_as have hd: "sl_head l = node" by simp
    define h' where "h' = h(node := None)"
    define l' where "l' = (if bs = [] then l\<lparr>sl_head := sn_next nd, sl_tail := NULL\<rparr>
                           else l\<lparr>sl_head := sn_next nd\<rparr>)\<lparr>sl_size := sl_size l - 1\<rparr>"
    have res: "unlinkn h l node prev = Some (node_data h node, h', l')"
      using ld nx by (simp add: unlinkn_def p0 free_node_def h'_def l'_def dat Let_def)
    have "lseg h' (sn_next nd) bs NULL" unfolding h'_def using n_bs s_bs by (rule lseg_frameI)
    then have "slist_abs h' l' (as @ bs)"
      using tl size' nx by (auto simp: slist_abs_def l'_def Nil)
    moreover have "\<forall>p. p \<noteq> node \<longrightarrow> node_data h' p = node_data h p"
      by (simp add: node_data_def h'_def)
    ultimately show ?thesis using res by blast
  next
    case (snoc as' p)
    with prev have pp: "prev = p" by simp
    from s_as obtain pn where s_as': "lseg h (sl_head l) as' p" and ldp: "load h p = Some pn"
      and pnx: "sn_next pn = node"
      by (auto simp: snoc lseg_snoc)
    from ldp have p0: "p \<noteq> NULL" by (simp add: load_Some)
    from n_as have pn_ne: "p \<noteq> node" by (auto simp: snoc)
    from seg have "distinct (as @ node # bs)" by (rule lseg_distinct)
    then have p_as': "p \<notin> set as'" and p_bs: "p \<notin> set bs" by (auto simp: snoc)
    from n_as have n_as': "node \<notin> set as'" by (simp add: snoc)
    define h1 where "h1 = h(p \<mapsto> pn\<lparr>sn_next := sn_next nd\<rparr>)"
    define h' where "h' = h1(node := None)"
    define l' where "l' = (if bs = [] then l\<lparr>sl_tail := p\<rparr> else l)\<lparr>sl_size := sl_size l - 1\<rparr>"
    have ld1: "load h1 node = Some nd" using pn_ne ld by (simp add: h1_def)
    have res: "unlinkn h l node prev = Some (node_data h node, h', l')"
      using ld ldp ld1 p0 nx
      by (simp add: unlinkn_def pp store_next_eq h1_def [symmetric] free_node_def
            h'_def l'_def dat Let_def)
    have "lseg h1 (sl_head l) as' p" unfolding h1_def using p_as' s_as' by (rule lseg_frameI)
    then have a1: "lseg h' (sl_head l) as' p" unfolding h'_def using n_as' by (rule lseg_frameI [rotated])
    have "lseg h1 (sn_next nd) bs NULL" unfolding h1_def using p_bs s_bs by (rule lseg_frameI)
    then have b1: "lseg h' (sn_next nd) bs NULL" unfolding h'_def using n_bs by (rule lseg_frameI [rotated])
    have ldp': "load h' p = Some (pn\<lparr>sn_next := sn_next nd\<rparr>)"
      using p0 pn_ne by (simp add: h'_def h1_def load_def)
    have "lseg h' (sl_head l) (as' @ p # bs) NULL"
      using a1 b1 ldp' by (simp add: lseg_append)
    then have "slist_abs h' l' (as @ bs)"
      using tl size' nx by (auto simp: slist_abs_def l'_def snoc)
    moreover have "\<forall>q. q \<noteq> node \<longrightarrow> node_data h' q = node_data h q"
      using ldp by (auto simp: node_data_def h'_def h1_def load_Some)
    ultimately show ?thesis using res by blast
  qed
qed

lemma prev_of_take:
  assumes "i < length ns"
  shows "(if i = 0 then NULL else ns ! (i - 1)) = (if take i ns = [] then NULL else last (take i ns))"
proof (cases i)
  case 0
  then show ?thesis by simp
next
  case (Suc k)
  with assms have "take i ns = take k ns @ [ns ! k]" by (simp add: take_Suc_conv_app_nth)
  with Suc show ?thesis by simp
qed

lemma add_at_abs_split:
  assumes abs: "slist_abs h l (as @ node # bs)"
    and gn: "get_node_at h l index NULL NULL
             = Some (CC_OK, node, if as = [] then NULL else last as)"
    and new: "new \<noteq> NULL" and fresh: "h new = None"
  shows "\<exists>h' l'. cc_slist_add_at h l e index new = Some (CC_OK, h', l')
           \<and> slist_abs h' l' (as @ new # node # bs)
           \<and> (\<forall>p. p \<noteq> new \<longrightarrow> node_data h' p = node_data h p)
           \<and> node_data h' new = e"
proof -
  define h1 where "h1 = h(new \<mapsto> \<lparr>sn_data = e, sn_next = NULL\<rparr>)"
  have notin: "new \<notin> set (as @ node # bs)" using abs fresh by (rule slist_abs_fresh)
  from abs have seg: "lseg h (sl_head l) (as @ node # bs) NULL"
    and sz: "sl_size l = of_nat (length (as @ node # bs))"
    and tl: "sl_tail l = last (node # bs)"
    by (simp_all add: slist_abs_def)
  have sd: "store_data (calloc_node h new) new e = Some h1"
    using new by (simp add: store_data_new h1_def)
  have ld_new: "load h1 new = Some \<lparr>sn_data = e, sn_next = NULL\<rparr>"
    using new by (simp add: h1_def load_def)
  show ?thesis
  proof (cases as rule: rev_cases)
    case Nil
    define h' where "h' = h1(new \<mapsto> \<lparr>sn_data = e, sn_next = sl_head l\<rparr>)"
    have res: "cc_slist_add_at h l e index new
          = Some (CC_OK, h', l\<lparr>sl_head := new, sl_size := sl_size l + 1\<rparr>)"
      using new ld_new by (simp add: cc_slist_add_at_def gn Nil sd store_next_eq h'_def)
    have "lseg h1 (sl_head l) (as @ node # bs) NULL"
      unfolding h1_def using notin seg by (rule lseg_frameI)
    then have "lseg h' (sl_head l) (as @ node # bs) NULL"
      unfolding h'_def using notin by (rule lseg_frameI [rotated])
    moreover have "load h' new = Some \<lparr>sn_data = e, sn_next = sl_head l\<rparr>"
      using new by (simp add: h'_def load_def)
    ultimately have "lseg h' new (new # as @ node # bs) NULL"
      by (simp only: lseg.simps option.case snode.simps)
    then have "slist_abs h' (l\<lparr>sl_head := new, sl_size := sl_size l + 1\<rparr>) (as @ new # node # bs)"
      using sz tl by (simp add: slist_abs_def Nil)
    moreover have "\<forall>p. p \<noteq> new \<longrightarrow> node_data h' p = node_data h p"
      by (simp add: node_data_def h'_def h1_def)
    moreover have "node_data h' new = e" by (simp add: node_data_def h'_def)
    ultimately show ?thesis using res by blast
  next
    case (snoc as' p)
    from seg obtain nd where s_as: "lseg h (sl_head l) as node"
      and s_bs: "lseg h node (node # bs) NULL"
      by (auto simp: lseg_append)
    from s_as obtain pn where s_as': "lseg h (sl_head l) as' p" and ldp: "load h p = Some pn"
      and pnx: "sn_next pn = node"
      by (auto simp: snoc lseg_snoc)
    from ldp have p0: "p \<noteq> NULL" by (simp add: load_Some)
    from seg have "distinct (as @ node # bs)" by (rule lseg_distinct)
    then have p_as': "p \<notin> set as'" and p_bs: "p \<notin> set (node # bs)" by (auto simp: snoc)
    from notin have new_as': "new \<notin> set as'" and new_bs: "new \<notin> set (node # bs)"
      and new_p: "new \<noteq> p"
      by (auto simp: snoc)
    define h2 where "h2 = h1(p \<mapsto> pn\<lparr>sn_next := new\<rparr>)"
    define h' where "h' = h2(new \<mapsto> \<lparr>sn_data = e, sn_next = node\<rparr>)"
    have ld1p: "load h1 p = Some pn" using new_p ldp by (simp add: h1_def)
    have ld2n: "load h2 new = Some \<lparr>sn_data = e, sn_next = NULL\<rparr>"
      using new_p ld_new by (simp add: h2_def)
    have res: "cc_slist_add_at h l e index new
          = Some (CC_OK, h', l\<lparr>sl_size := sl_size l + 1\<rparr>)"
      using new p0 ld1p ld2n
      by (simp add: cc_slist_add_at_def gn snoc sd store_next_eq h2_def [symmetric] h'_def pnx)
    have "lseg h1 (sl_head l) as' p" unfolding h1_def using new_as' s_as' by (rule lseg_frameI)
    then have "lseg h2 (sl_head l) as' p" unfolding h2_def using p_as' by (rule lseg_frameI [rotated])
    then have a3: "lseg h' (sl_head l) as' p" unfolding h'_def using new_as' by (rule lseg_frameI [rotated])
    have "lseg h1 node (node # bs) NULL" unfolding h1_def using new_bs s_bs by (rule lseg_frameI)
    then have "lseg h2 node (node # bs) NULL" unfolding h2_def using p_bs by (rule lseg_frameI [rotated])
    then have b3: "lseg h' node (node # bs) NULL" unfolding h'_def using new_bs by (rule lseg_frameI [rotated])
    have ldp': "load h' p = Some (pn\<lparr>sn_next := new\<rparr>)"
      using p0 new_p by (simp add: h'_def h2_def load_def)
    have ldn': "load h' new = Some \<lparr>sn_data = e, sn_next = node\<rparr>"
      using new by (simp add: h'_def load_def)
    have "lseg h' new (new # node # bs) NULL"
      using b3 by (simp only: lseg.simps [of h' new new] ldn' option.case snode.simps simp_thms)
    with a3 ldp' have "lseg h' (sl_head l) (as' @ p # new # node # bs) NULL"
      by (simp add: lseg_append)
    then have "slist_abs h' (l\<lparr>sl_size := sl_size l + 1\<rparr>) (as @ new # node # bs)"
      using sz tl by (simp add: slist_abs_def snoc)
    moreover have "\<forall>q. q \<noteq> new \<longrightarrow> node_data h' q = node_data h q"
      using ldp by (auto simp: node_data_def h'_def h2_def h1_def load_Some)
    moreover have "node_data h' new = e" by (simp add: node_data_def h'_def)
    ultimately show ?thesis using res by blast
  qed
qed

lemma nth_split:
  assumes "i < length ns"
  shows "ns = take i ns @ ns ! i # drop (Suc i) ns"
  using assms by (simp add: id_take_nth_drop [symmetric])

lemma add_at_abs:
  assumes abs: "slist_abs h l ns" and lt: "index < sl_size l"
    and new: "new \<noteq> NULL" and fresh: "h new = None"
  shows "\<exists>h' l'. cc_slist_add_at h l e index new = Some (CC_OK, h', l')
           \<and> slist_abs h' l' (take (unat index) ns @ new # drop (unat index) ns)
           \<and> (\<forall>p. p \<noteq> new \<longrightarrow> node_data h' p = node_data h p)
           \<and> node_data h' new = e"
proof -
  let ?i = "unat index"
  note g = get_node_at_abs(1) [OF abs lt, of NULL NULL]
  have il: "?i < length ns" using get_node_at_abs(2) [OF abs lt] .
  have split: "ns = take ?i ns @ ns ! ?i # drop (Suc ?i) ns" using il by (rule nth_split)
  have abs': "slist_abs h l (take ?i ns @ ns ! ?i # drop (Suc ?i) ns)"
    using abs split by simp
  have gn: "get_node_at h l index NULL NULL
             = Some (CC_OK, ns ! ?i, if take ?i ns = [] then NULL else last (take ?i ns))"
    unfolding g prev_of_take [OF il] ..
  have dr: "drop ?i ns = ns ! ?i # drop (Suc ?i) ns"
    using il by (simp add: Cons_nth_drop_Suc)
  from add_at_abs_split [OF abs' gn new fresh, of e] show ?thesis
    unfolding dr .
qed

lemma add_at_out_of_range_sl:
  "sl_size l \<le> index \<Longrightarrow> cc_slist_add_at h l e index new = Some (CC_ERR_OUT_OF_RANGE, h, l)"
  by (simp add: cc_slist_add_at_def get_node_at_out_of_range)

lemma add_at_alloc_fails:
  assumes abs: "slist_abs h l ns" and lt: "index < sl_size l"
  shows "cc_slist_add_at h l e index NULL = Some (CC_ERR_ALLOC, h, l)"
  using get_node_at_abs(1) [OF abs lt, of NULL NULL] by (simp add: cc_slist_add_at_def)

subsection \<open>Operations by position\<close>

lemma slist_abs_load:
  assumes "slist_abs h l ns" and "a \<in> set ns"
  obtains nd where "load h a = Some nd" and "a \<noteq> NULL" and "h a = Some nd"
    and "node_data h a = sn_data nd"
proof -
  from assms(1) have "lseg h (sl_head l) ns NULL" by (simp add: slist_abs_def)
  with assms(2) obtain nd where "load h a = Some nd" using lseg_allocated by blast
  then show ?thesis using that by (simp add: load_Some node_data_def)
qed

lemma remove_at_abs:
  assumes abs: "slist_abs h l ns" and lt: "index < sl_size l"
  shows "\<exists>h' l'. (\<forall>out. cc_slist_remove_at h l index out
                       = Some (CC_OK, h', l', put_out out (node_data h (ns ! unat index))))
           \<and> slist_abs h' l' (take (unat index) ns @ drop (Suc (unat index)) ns)
           \<and> (\<forall>p. p \<noteq> ns ! unat index \<longrightarrow> node_data h' p = node_data h p)"
proof -
  let ?i = "unat index"
  note g = get_node_at_abs(1) [OF abs lt, of NULL NULL]
  have il: "?i < length ns" using get_node_at_abs(2) [OF abs lt] .
  have split: "ns = take ?i ns @ ns ! ?i # drop (Suc ?i) ns" using il by (rule nth_split)
  have abs': "slist_abs h l (take ?i ns @ ns ! ?i # drop (Suc ?i) ns)"
    using abs split by simp
  define prev where "prev = (if take ?i ns = [] then NULL else last (take ?i ns))"
  have gn: "get_node_at h l index NULL NULL = Some (CC_OK, ns ! ?i, prev)"
    unfolding g prev_of_take [OF il] prev_def ..
  from unlinkn_abs [OF abs' prev_def] obtain h' l' where
    un: "unlinkn h l (ns ! ?i) prev = Some (node_data h (ns ! ?i), h', l')"
    and abs'': "slist_abs h' l' (take ?i ns @ drop (Suc ?i) ns)"
    and dat: "\<forall>p. p \<noteq> ns ! ?i \<longrightarrow> node_data h' p = node_data h p"
    by blast
  have "cc_slist_remove_at h l index out
          = Some (CC_OK, h', l', put_out out (node_data h (ns ! ?i)))" for out
    by (simp add: cc_slist_remove_at_def gn un put_out_def)
  with abs'' dat show ?thesis by blast
qed

lemma remove_at_out_of_range:
  "sl_size l \<le> index \<Longrightarrow> cc_slist_remove_at h l index out = Some (CC_ERR_OUT_OF_RANGE, h, l, out)"
  by (simp add: cc_slist_remove_at_def get_node_at_out_of_range)

lemma remove_first_abs:
  assumes abs: "slist_abs h l (a # as)"
  shows "\<exists>h' l'. (\<forall>out. cc_slist_remove_first h l out
                       = Some (CC_OK, h', l', put_out out (node_data h a)))
           \<and> slist_abs h' l' as
           \<and> (\<forall>p. p \<noteq> a \<longrightarrow> node_data h' p = node_data h p)"
proof -
  have nz: "sl_size l \<noteq> 0" using slist_abs_empty_iff [OF abs] by simp
  have hd: "sl_head l = a" using abs by (rule slist_abs_head)
  from abs have abs': "slist_abs h l ([] @ a # as)" by simp
  from unlinkn_abs [OF abs', of NULL] obtain h' l' where
    un: "unlinkn h l a NULL = Some (node_data h a, h', l')"
    and abs'': "slist_abs h' l' as"
    and dat: "\<forall>p. p \<noteq> a \<longrightarrow> node_data h' p = node_data h p"
    by auto
  have "cc_slist_remove_first h l out = Some (CC_OK, h', l', put_out out (node_data h a))" for out
    using nz by (simp add: cc_slist_remove_first_def hd un put_out_def)
  with abs'' dat show ?thesis by blast
qed

lemma remove_first_empty:
  "sl_size l = 0 \<Longrightarrow> cc_slist_remove_first h l out = Some (CC_ERR_VALUE_NOT_FOUND, h, l, out)"
  by (simp add: cc_slist_remove_first_def)

lemma replace_at_abs:
  assumes abs: "slist_abs h l ns" and lt: "index < sl_size l"
  shows "\<exists>h'. (\<forall>out. cc_slist_replace_at h l e index out
                     = Some (CC_OK, h', l, put_out out (node_data h (ns ! unat index))))
           \<and> slist_abs h' l ns
           \<and> (\<forall>p. p \<noteq> ns ! unat index \<longrightarrow> node_data h' p = node_data h p)
           \<and> node_data h' (ns ! unat index) = e"
proof -
  let ?n = "ns ! unat index"
  note g = get_node_at_abs(1) [OF abs lt, of NULL NULL]
  have il: "unat index < length ns" using get_node_at_abs(2) [OF abs lt] .
  then have mem: "?n \<in> set ns" by simp
  from abs mem obtain nd where ld: "load h ?n = Some nd" and n0: "?n \<noteq> NULL"
    and dat: "node_data h ?n = sn_data nd"
    by (rule slist_abs_load)
  define h' where "h' = h(?n \<mapsto> nd\<lparr>sn_data := e\<rparr>)"
  have res: "cc_slist_replace_at h l e index out
                = Some (CC_OK, h', l, put_out out (node_data h ?n))" for out
    using ld by (simp add: cc_slist_replace_at_def g store_data_def h'_def put_out_def dat)
  have nx: "map_option sn_next (load h' a) = map_option sn_next (load h a)" for a
    using ld n0 by (auto simp: h'_def load_def)
  from abs have "lseg h (sl_head l) ns NULL" by (simp add: slist_abs_def)
  then have "lseg h' (sl_head l) ns NULL" using lseg_next_cong [of ns h' h, OF nx] by simp
  with abs have "slist_abs h' l ns" by (simp add: slist_abs_def)
  moreover have "\<forall>p. p \<noteq> ?n \<longrightarrow> node_data h' p = node_data h p"
    by (simp add: node_data_def h'_def)
  moreover have "node_data h' ?n = e" by (simp add: node_data_def h'_def)
  ultimately show ?thesis using res by blast
qed

lemma replace_at_out_of_range:
  "sl_size l \<le> index \<Longrightarrow> cc_slist_replace_at h l e index out = Some (CC_ERR_OUT_OF_RANGE, h, l, out)"
  by (simp add: cc_slist_replace_at_def get_node_at_out_of_range)

lemma get_at_abs:
  assumes abs: "slist_abs h l ns" and lt: "index < sl_size l"
  shows "cc_slist_get_at h l index (Out x) = Some (CC_OK, Out (node_data h (ns ! unat index)))"
    and "cc_slist_get_at h l index Out_NULL = None"
proof -
  let ?n = "ns ! unat index"
  note g = get_node_at_abs(1) [OF abs lt, of NULL NULL]
  have il: "unat index < length ns" using get_node_at_abs(2) [OF abs lt] .
  then have mem: "?n \<in> set ns" by simp
  from abs mem obtain nd where ld: "load h ?n = Some nd"
    and dat: "node_data h ?n = sn_data nd"
    by (rule slist_abs_load)
  show "cc_slist_get_at h l index (Out x) = Some (CC_OK, Out (node_data h ?n))"
    using ld by (simp add: cc_slist_get_at_def g dat)
  show "cc_slist_get_at h l index Out_NULL = None"
    using ld by (simp add: cc_slist_get_at_def g)
qed

lemma get_at_out_of_range:
  "sl_size l \<le> index \<Longrightarrow> cc_slist_get_at h l index out = Some (CC_ERR_OUT_OF_RANGE, out)"
  by (simp add: cc_slist_get_at_def get_node_at_out_of_range)

subsection \<open>Operations by value, and removing everything\<close>

lemma get_node_loop_found:
  assumes "lseg h node (as @ a # bs) q" and "node_data h a = e"
    and "\<forall>x\<in>set as. node_data h x \<noteq> e"
  shows "get_node_loop h e node prev = Some (CC_OK, a, if as = [] then prev else last as)"
  using assms
proof (induction as arbitrary: node prev)
  case Nil
  then obtain nd where "node = a" "load h a = Some nd" by (auto split: option.splits)
  with Nil show ?case
    by (subst get_node_loop.simps) (simp add: load_Some node_data_def)
next
  case (Cons x xs)
  then obtain nd where x: "node = x" and ld: "load h x = Some nd"
    and seg: "lseg h (sn_next nd) (xs @ a # bs) q"
    by (auto split: option.splits)
  from Cons.prems ld have ne: "sn_data nd \<noteq> e" by (simp add: load_Some node_data_def)
  have "get_node_loop h e (sn_next nd) x = Some (CC_OK, a, if xs = [] then x else last xs)"
    using seg Cons.prems(2) by (rule Cons.IH) (simp add: Cons.prems)
  with ld ne show ?case
    by (subst get_node_loop.simps) (simp add: load_Some x)
qed

lemma get_node_loop_not_found:
  assumes "lseg h node ms NULL" and "\<forall>x\<in>set ms. node_data h x \<noteq> e"
  shows "get_node_loop h e node prev = Some (CC_ERR_VALUE_NOT_FOUND, NULL, last (prev # ms))"
  using assms
proof (induction ms arbitrary: node prev)
  case Nil
  then show ?case by (subst get_node_loop.simps) simp
next
  case (Cons x xs)
  then obtain nd where x: "node = x" and ld: "load h x = Some nd"
    and seg: "lseg h (sn_next nd) xs NULL"
    by (auto split: option.splits)
  from Cons.prems ld have ne: "sn_data nd \<noteq> e" by (simp add: load_Some node_data_def)
  have "get_node_loop h e (sn_next nd) x = Some (CC_ERR_VALUE_NOT_FOUND, NULL, last (x # xs))"
    using seg by (rule Cons.IH) (simp add: Cons.prems)
  with ld ne show ?case
    by (subst get_node_loop.simps) (simp add: load_Some x)
qed

lemma remove_abs_found:
  assumes abs: "slist_abs h l (as @ a # bs)" and "node_data h a = e"
    and "\<forall>x\<in>set as. node_data h x \<noteq> e"
  shows "\<exists>h' l'. (\<forall>out. cc_slist_remove h l e out = Some (CC_OK, h', l', put_out out e))
           \<and> slist_abs h' l' (as @ bs)
           \<and> (\<forall>p. p \<noteq> a \<longrightarrow> node_data h' p = node_data h p)"
proof -
  define prev where "prev = (if as = [] then NULL else last as)"
  from abs have seg: "lseg h (sl_head l) (as @ a # bs) NULL" by (simp add: slist_abs_def)
  have gn: "get_node h l e = Some (CC_OK, a, prev)"
    unfolding get_node_def prev_def using seg assms(2,3) by (rule get_node_loop_found)
  from unlinkn_abs [OF abs prev_def] obtain h' l' where
    un: "unlinkn h l a prev = Some (node_data h a, h', l')"
    and abs': "slist_abs h' l' (as @ bs)"
    and dat: "\<forall>p. p \<noteq> a \<longrightarrow> node_data h' p = node_data h p"
    by blast
  have "cc_slist_remove h l e out = Some (CC_OK, h', l', put_out out e)" for out
    by (simp add: cc_slist_remove_def gn un put_out_def assms(2))
  with abs' dat show ?thesis by blast
qed

lemma remove_abs_not_found:
  assumes abs: "slist_abs h l ns" and "\<forall>x\<in>set ns. node_data h x \<noteq> e"
  shows "cc_slist_remove h l e out = Some (CC_ERR_VALUE_NOT_FOUND, h, l, out)"
proof -
  from abs have seg: "lseg h (sl_head l) ns NULL" by (simp add: slist_abs_def)
  have "get_node h l e = Some (CC_ERR_VALUE_NOT_FOUND, NULL, last (NULL # ns))"
    unfolding get_node_def using seg assms(2) by (rule get_node_loop_not_found)
  then show ?thesis by (simp add: cc_slist_remove_def)
qed

lemma unlinkn_all_loop_abs:
  assumes "lseg h n ms NULL"
  shows "\<exists>h'. unlinkn_all_loop h l n = Some (h', l\<lparr>sl_size := sl_size l - of_nat (length ms)\<rparr>)
           \<and> (\<forall>p. p \<notin> set ms \<longrightarrow> h' p = h p)"
  using assms
proof (induction ms arbitrary: h l n)
  case Nil
  then show ?case by (subst unlinkn_all_loop.simps) simp
next
  case (Cons a as)
  then obtain nd where a: "n = a" and ld: "load h a = Some nd"
    and seg: "lseg h (sn_next nd) as NULL"
    by (auto split: option.splits)
  define h1 where "h1 = h(a := None)"
  from Cons.prems have "a \<notin> set as" by (rule lseg_hd_notin)
  then have "lseg h1 (sn_next nd) as NULL" unfolding h1_def using seg by (rule lseg_frameI)
  from Cons.IH [OF this, of "l\<lparr>sl_size := sl_size l - 1\<rparr>"] obtain h' where
    loop: "unlinkn_all_loop h1 (l\<lparr>sl_size := sl_size l - 1\<rparr>) (sn_next nd)
     = Some (h', l\<lparr>sl_size := sl_size l - 1 - of_nat (length as)\<rparr>)"
    and frame: "\<forall>p. p \<notin> set as \<longrightarrow> h' p = h1 p"
    by auto
  have "sl_size l - 1 - of_nat (length as) = sl_size l - of_nat (length (a # as))"
    by simp
  with loop have "unlinkn_all_loop h1 (l\<lparr>sl_size := sl_size l - 1\<rparr>) (sn_next nd)
     = Some (h', l\<lparr>sl_size := sl_size l - of_nat (length (a # as))\<rparr>)"
    by (simp only:)
  moreover have "unlinkn_all_loop h l n
     = unlinkn_all_loop h1 (l\<lparr>sl_size := sl_size l - 1\<rparr>) (sn_next nd)"
    using ld by (subst unlinkn_all_loop.simps) (simp add: load_Some a h1_def)
  moreover have "\<forall>p. p \<notin> set (a # as) \<longrightarrow> h' p = h p"
    using frame by (simp add: h1_def)
  ultimately show ?case by (simp only:) blast
qed

lemma remove_all_abs:
  assumes abs: "slist_abs h l ns"
  shows "\<exists>st h' l'. cc_slist_remove_all h l = Some (st, h', l') \<and> slist_abs h' l' []
           \<and> (st = CC_ERR_VALUE_NOT_FOUND \<longleftrightarrow> ns = []) \<and> (st = CC_OK \<longleftrightarrow> ns \<noteq> [])
           \<and> (\<forall>p. p \<notin> set ns \<longrightarrow> h' p = h p)"
proof (cases "ns = []")
  case True
  with abs have "sl_size l = 0" by (simp add: slist_abs_def)
  with abs True show ?thesis by (simp add: cc_slist_remove_all_def unlinkn_all_def)
next
  case False
  then have nz: "sl_size l \<noteq> 0" using slist_abs_empty_iff [OF abs] by simp
  from abs have seg: "lseg h (sl_head l) ns NULL" and sz: "sl_size l = of_nat (length ns)"
    by (simp_all add: slist_abs_def)
  from unlinkn_all_loop_abs [OF seg, of l] obtain h' where
    "unlinkn_all_loop h l (sl_head l) = Some (h', l\<lparr>sl_size := sl_size l - of_nat (length ns)\<rparr>)"
    and frame: "\<forall>p. p \<notin> set ns \<longrightarrow> h' p = h p"
    by blast
  with nz have "cc_slist_remove_all h l
      = Some (CC_OK, h', l\<lparr>sl_size := 0, sl_head := NULL, sl_tail := NULL\<rparr>)"
    by (simp add: cc_slist_remove_all_def unlinkn_all_def sz)
  moreover have "slist_abs h' (l\<lparr>sl_size := 0, sl_head := NULL, sl_tail := NULL\<rparr>) []"
    by (simp add: slist_abs_def)
  ultimately show ?thesis using False frame by simp
qed

lemma remove_all_cb_eq: "cc_slist_remove_all_cb h l = cc_slist_remove_all h l"
  by (simp add: cc_slist_remove_all_cb_def cc_slist_remove_all_def)

subsection \<open>Reversing and splicing\<close>

lemma slist_reverse_loop_abs:
  assumes "lseg h flip ns NULL" and "lseg h prev ps NULL" and "set ns \<inter> set ps = {}"
  shows "\<exists>h'. slist_reverse_loop h flip prev = Some (h', last (prev # ns))
           \<and> lseg h' (last (prev # ns)) (rev ns @ ps) NULL
           \<and> (\<forall>p. node_data h' p = node_data h p)"
  using assms
proof (induction ns arbitrary: h flip prev ps)
  case Nil
  then show ?case by (subst slist_reverse_loop.simps) simp
next
  case (Cons a as)
  then obtain nd where a: "flip = a" and ld: "load h a = Some nd"
    and seg: "lseg h (sn_next nd) as NULL"
    by (auto split: option.splits)
  from ld have a0: "a \<noteq> NULL" and ha: "h a = Some nd" by (simp_all add: load_Some)
  from Cons.prems(1) have a_as: "a \<notin> set as" by (rule lseg_hd_notin)
  from Cons.prems(3) have a_ps: "a \<notin> set ps" and disj: "set as \<inter> set (a # ps) = {}"
    using a_as by auto
  define h1 where "h1 = h(a \<mapsto> nd\<lparr>sn_next := prev\<rparr>)"
  have s1: "lseg h1 (sn_next nd) as NULL"
    unfolding h1_def using a_as seg by (rule lseg_frameI)
  have "lseg h1 prev ps NULL"
    unfolding h1_def using a_ps Cons.prems(2) by (rule lseg_frameI)
  moreover have "load h1 a = Some (nd\<lparr>sn_next := prev\<rparr>)"
    using a0 by (simp add: h1_def load_def)
  ultimately have s2: "lseg h1 a (a # ps) NULL"
    by (simp only: lseg.simps option.case snode.simps simp_thms) simp
  from Cons.IH [OF s1 s2 disj] obtain h' where
    loop: "slist_reverse_loop h1 (sn_next nd) a = Some (h', last (a # as))"
    and seg': "lseg h' (last (a # as)) (rev as @ a # ps) NULL"
    and dat: "\<forall>p. node_data h' p = node_data h1 p"
    by blast
  have "slist_reverse_loop h flip prev = slist_reverse_loop h1 (sn_next nd) a"
    using a0 ha by (subst slist_reverse_loop.simps) (simp add: a h1_def)
  with loop have "slist_reverse_loop h flip prev = Some (h', last (prev # a # as))"
    by simp
  moreover from seg' have "lseg h' (last (prev # a # as)) (rev (a # as) @ ps) NULL"
    by simp
  moreover have "\<forall>p. node_data h1 p = node_data h p"
    using ha by (simp add: node_data_def h1_def)
  with dat have "\<forall>p. node_data h' p = node_data h p" by simp
  ultimately show ?case by blast
qed

lemma slist_abs_size_one:
  assumes "slist_abs h l ns"
  shows "sl_size l = 1 \<longleftrightarrow> length ns = 1"
proof -
  have "unat (sl_size l) = length ns" using assms by (rule slist_abs_unat)
  moreover have "sl_size l = 1 \<longleftrightarrow> unat (sl_size l) = 1"
    by (metis unat_1 word_unat_eq_iff)
  ultimately show ?thesis by simp
qed

lemma slist_abs_tail_head:
  assumes "slist_abs h l ns" and "length ns \<le> 1"
  shows "sl_tail l = sl_head l"
proof (cases ns)
  case Nil
  with assms show ?thesis by (simp add: slist_abs_def)
next
  case (Cons a as)
  with assms have "as = []" by simp
  with assms Cons show ?thesis by (auto simp: slist_abs_def split: option.splits)
qed

lemma reverse_abs:
  assumes abs: "slist_abs h l ns"
  shows "\<exists>h' l'. cc_slist_reverse h l = Some (h', l')
           \<and> slist_abs h' l' (rev ns)
           \<and> (\<forall>p. node_data h' p = node_data h p)
           \<and> sl_tail l' = sl_head l"
proof (cases "length ns \<le> 1")
  case True
  then have r: "rev ns = ns" by (cases ns) auto
  have "sl_size l = 0 \<or> sl_size l = 1"
    using True slist_abs_empty_iff [OF abs] slist_abs_size_one [OF abs]
    by (cases ns) auto
  then have "cc_slist_reverse h l = Some (h, l)" by (auto simp: cc_slist_reverse_def)
  with abs r slist_abs_tail_head [OF abs True] show ?thesis by simp
next
  case False
  then have ne: "ns \<noteq> []" and "length ns \<noteq> 1" by auto
  then have guard: "\<not> (sl_size l = 0 \<or> sl_size l = 1)"
    using slist_abs_empty_iff [OF abs] slist_abs_size_one [OF abs] by simp
  from abs have seg: "lseg h (sl_head l) ns NULL" and sz: "sl_size l = of_nat (length ns)"
    by (simp_all add: slist_abs_def)
  from ne seg have hd: "sl_head l = hd ns" by (cases ns) auto
  have "lseg h NULL [] NULL" by simp
  from slist_reverse_loop_abs [OF seg this] obtain h' where
    loop: "slist_reverse_loop h (sl_head l) NULL = Some (h', last (NULL # ns))"
    and seg': "lseg h' (last (NULL # ns)) (rev ns @ []) NULL"
    and dat: "\<forall>p. node_data h' p = node_data h p"
    by auto
  define l' where "l' = l\<lparr>sl_tail := sl_head l, sl_head := last ns\<rparr>"
  have res: "cc_slist_reverse h l = Some (h', l')"
    using guard loop ne by (simp add: cc_slist_reverse_def l'_def)
  have "slist_abs h' l' (rev ns)"
    using seg' sz ne hd by (simp add: slist_abs_def l'_def last_rev)
  moreover have "sl_tail l' = sl_head l" by (simp add: l'_def)
  ultimately show ?thesis using res dat by blast
qed

lemma splice_abs:
  assumes a1: "slist_abs h l1 ns" and a2: "slist_abs h l2 ms" and disj: "set ns \<inter> set ms = {}"
  shows "\<exists>h' l1' l2'. cc_slist_splice h l1 l2 = Some (CC_OK, h', l1', l2')
           \<and> slist_abs h' l1' (ns @ ms) \<and> slist_abs h' l2' []
           \<and> sl_size l2' = 0 \<and> sl_head l2' = NULL \<and> sl_tail l2' = NULL
           \<and> sl_size l1' = sl_size l1 + sl_size l2
           \<and> (\<forall>p. node_data h' p = node_data h p)"
proof (cases "ms = []")
  case True
  with a2 have z: "sl_size l2 = 0" "sl_head l2 = NULL" "sl_tail l2 = NULL"
    by (simp_all add: slist_abs_def)
  then have "cc_slist_splice h l1 l2 = Some (CC_OK, h, l1, l2)"
    by (simp add: cc_slist_splice_def)
  with a1 a2 True z show ?thesis by simp
next
  case False
  then have nz2: "sl_size l2 \<noteq> 0" using slist_abs_empty_iff [OF a2] by simp
  from a2 have seg2: "lseg h (sl_head l2) ms NULL" and sz2: "sl_size l2 = of_nat (length ms)"
    and tl2: "sl_tail l2 = last ms"
    using False by (simp_all add: slist_abs_def)
  from a1 have sz1: "sl_size l1 = of_nat (length ns)" by (simp add: slist_abs_def)
  define l2' where "l2' = l2\<lparr>sl_head := NULL, sl_tail := NULL, sl_size := 0\<rparr>"
  have e2: "slist_abs h' l2' [] \<and> sl_size l2' = 0 \<and> sl_head l2' = NULL \<and> sl_tail l2' = NULL"
    for h' by (simp add: slist_abs_def l2'_def)
  show ?thesis
  proof (cases ns rule: rev_cases)
    case Nil
    with sz1 have z1: "sl_size l1 = 0" by simp
    define l1' where "l1' = l1\<lparr>sl_head := sl_head l2, sl_tail := sl_tail l2,
                                sl_size := sl_size l1 + sl_size l2\<rparr>"
    have res: "cc_slist_splice h l1 l2 = Some (CC_OK, h, l1', l2')"
      using nz2 z1 by (simp add: cc_slist_splice_def l1'_def l2'_def)
    have "slist_abs h l1' (ns @ ms)"
      using seg2 sz2 tl2 False z1 by (simp add: slist_abs_def l1'_def Nil)
    moreover have "sl_size l1' = sl_size l1 + sl_size l2" by (simp add: l1'_def)
    ultimately show ?thesis using res e2 [of h] by auto
  next
    case (snoc as t)
    from a1 obtain nd where tl: "sl_tail l1 = t" and seg: "lseg h (sl_head l1) as t"
      and ld: "load h t = Some nd" and t_as: "t \<notin> set as" and t0: "t \<noteq> NULL"
      unfolding snoc by (rule slist_abs_snoc)
    from disj have t_ms: "t \<notin> set ms" by (auto simp: snoc)
    have nz1: "sl_size l1 \<noteq> 0" using slist_abs_empty_iff [OF a1] by (simp add: snoc)
    define h' where "h' = h(t \<mapsto> nd\<lparr>sn_next := sl_head l2\<rparr>)"
    define l1' where "l1' = l1\<lparr>sl_tail := sl_tail l2, sl_size := sl_size l1 + sl_size l2\<rparr>"
    have res: "cc_slist_splice h l1 l2 = Some (CC_OK, h', l1', l2')"
      using nz2 nz1 ld by (simp add: cc_slist_splice_def store_next_eq tl h'_def l1'_def l2'_def)
    have s1: "lseg h' (sl_head l1) as t" unfolding h'_def using t_as seg by (rule lseg_frameI)
    have s2: "lseg h' (sl_head l2) ms NULL" unfolding h'_def using t_ms seg2 by (rule lseg_frameI)
    have ldt: "load h' t = Some (nd\<lparr>sn_next := sl_head l2\<rparr>)"
      using t0 by (simp add: h'_def load_def)
    have "lseg h' (sl_head l1) (as @ t # ms) NULL"
      using s1 s2 ldt by (simp add: lseg_append)
    then have "slist_abs h' l1' (ns @ ms)"
      using sz1 sz2 tl2 False by (simp add: slist_abs_def l1'_def snoc)
    moreover have "sl_size l1' = sl_size l1 + sl_size l2" by (simp add: l1'_def)
    moreover have "\<forall>p. node_data h' p = node_data h p"
      using ld by (simp add: node_data_def h'_def load_Some)
    ultimately show ?thesis using res e2 [of h'] by blast
  qed
qed

subsection \<open>Copying\<close>

lemma lseg_agree:
  assumes "\<forall>p\<in>set ns. h' p = h p"
  shows "lseg h' x ns q \<longleftrightarrow> lseg h x ns q"
proof (rule lseg_next_cong)
  fix a assume "a \<in> set ns"
  with assms have "h' a = h a" by blast
  then show "map_option sn_next (load h' a) = map_option sn_next (load h a)"
    by (simp add: load_def)
qed

lemma slist_abs_agree:
  assumes "slist_abs h l ns" and "\<forall>p\<in>set ns. h' p = h p"
  shows "slist_abs h' l ns"
  using assms lseg_agree [of ns h' h] by (simp add: slist_abs_def)

lemma slist_abs_tail_mem:
  assumes "slist_abs h l ns"
  shows "sl_tail l = NULL \<or> sl_tail l \<in> set ns"
  using assms by (cases "ns = []") (simp_all add: slist_abs_def)

lemma copy_shallow_loop_abs:
  assumes src: "slist_abs h l ns" and seg: "lseg h node ms NULL" and sub: "set ms \<subseteq> set ns"
    and cp: "slist_abs h copy cs" and disj: "set cs \<inter> set ns = {}"
    and dist: "distinct news" and fresh: "\<forall>a\<in>set news. a \<noteq> NULL \<longrightarrow> h a = None"
  shows "\<exists>st h' r. copy_shallow_loop h copy node news = Some (st, h', r)
           \<and> slist_abs h' l ns
           \<and> (case r of None \<Rightarrow> st = CC_ERR_ALLOC
               | Some c \<Rightarrow> st = CC_OK \<and> (\<exists>cs'. slist_abs h' c cs' \<and> set cs' \<inter> set ns = {}
                    \<and> map (node_data h') cs' = map (node_data h) cs @ map (node_data h) ms))
           \<and> (\<forall>p\<in>set ns. h' p = h p)"
  using assms
proof (induction ms arbitrary: h copy node news cs)
  case Nil
  then have "copy_shallow_loop h copy node news = Some (CC_OK, h, Some copy)"
    by (subst copy_shallow_loop.simps) simp
  with Nil show ?case by auto
next
  case (Cons a as)
  note src = Cons.prems(1) and cp = Cons.prems(4) and disj = Cons.prems(5)
    and dist = Cons.prems(6) and fresh = Cons.prems(7)
  from Cons.prems(2) obtain nd where a: "node = a" and ld: "load h a = Some nd"
    and seg: "lseg h (sn_next nd) as NULL"
    by (auto split: option.splits)
  from ld have a0: "a \<noteq> NULL" and ha: "h a = Some nd" by (simp_all add: load_Some)
  from Cons.prems(3) have a_ns: "a \<in> set ns" and sub: "set as \<subseteq> set ns" by auto
  define new where "new = (case news of [] \<Rightarrow> NULL | x # rest \<Rightarrow> x)"
  have unfold: "copy_shallow_loop h copy node news =
      (case cc_slist_add_last h copy (sn_data nd) new of
         None \<Rightarrow> None
       | Some (status, h1, copy1) \<Rightarrow>
           if status \<noteq> CC_OK
           then (case cc_slist_remove_all h1 copy1 of
                   None \<Rightarrow> None
                 | Some (s, h2, copy2) \<Rightarrow> Some (status, h2, None))
           else (case load h1 node of
                   None \<Rightarrow> None
                 | Some nd1 \<Rightarrow> copy_shallow_loop h1 copy1 (sn_next nd1) (tl news)))"
    using a0 ha by (subst copy_shallow_loop.simps) (simp add: a new_def)
  show ?case
  proof (cases "new = NULL")
    case True
    then have add: "cc_slist_add_last h copy (sn_data nd) new = Some (CC_ERR_ALLOC, h, copy)"
      by (simp add: cc_slist_add_last_def)
    from remove_all_abs [OF cp] obtain s h2 copy2 where
      rm: "cc_slist_remove_all h copy = Some (s, h2, copy2)"
      and frame: "\<forall>p. p \<notin> set cs \<longrightarrow> h2 p = h p"
      by blast
    have res: "copy_shallow_loop h copy node news = Some (CC_ERR_ALLOC, h2, None)"
      by (simp add: unfold add rm)
    from frame disj have agree: "\<forall>p\<in>set ns. h2 p = h p" by auto
    with src have "slist_abs h2 l ns" by (rule slist_abs_agree)
    with res agree show ?thesis by simp
  next
    case False
    then obtain rest where news: "news = new # rest" by (cases news) (auto simp: new_def)
    with fresh False have hnew: "h new = None" by simp
    from add_last_abs [OF cp False hnew, of "sn_data nd"] obtain h1 copy1 where
      add: "cc_slist_add_last h copy (sn_data nd) new = Some (CC_OK, h1, copy1)"
      and cp1: "slist_abs h1 copy1 (cs @ [new])"
      and dat: "\<forall>p. p \<noteq> new \<longrightarrow> node_data h1 p = node_data h p"
      and dnew: "node_data h1 new = sn_data nd"
      and frame: "\<forall>p. p \<noteq> new \<longrightarrow> p \<noteq> sl_tail copy \<longrightarrow> h1 p = h p"
      and alloc: "h1 new \<noteq> None" "\<forall>p. h p \<noteq> None \<longrightarrow> h1 p \<noteq> None"
      by blast
    have new_ns: "new \<notin> set ns" using src hnew by (rule slist_abs_fresh)
    have tl_ns: "sl_tail copy \<notin> set ns"
    proof
      assume m: "sl_tail copy \<in> set ns"
      from src have "lseg h (sl_head l) ns NULL" by (simp add: slist_abs_def)
      then have "NULL \<notin> set ns" by (rule lseg_not_NULL)
      with m have "sl_tail copy \<noteq> NULL" by auto
      with slist_abs_tail_mem [OF cp] have "sl_tail copy \<in> set cs" by simp
      with m disj show False by auto
    qed
    have agree: "\<forall>p\<in>set ns. h1 p = h p"
      using frame new_ns tl_ns by auto
    have src1: "slist_abs h1 l ns" using src agree by (rule slist_abs_agree)
    have "\<forall>p\<in>set as. h1 p = h p" using agree sub by auto
    then have seg1: "lseg h1 (sn_next nd) as NULL" using seg lseg_agree [of as h1 h] by blast
    have "h1 a = h a" using agree a_ns by blast
    then have ld1: "load h1 node = Some nd" using a0 ha by (simp add: load_def a)
    have disj1: "set (cs @ [new]) \<inter> set ns = {}" using disj new_ns by auto
    have dist1: "distinct (tl news)" using dist by (simp add: news)
    have fresh1: "\<forall>x\<in>set (tl news). x \<noteq> NULL \<longrightarrow> h1 x = None"
    proof (intro ballI impI)
      fix x assume x: "x \<in> set (tl news)" and x0: "x \<noteq> NULL"
      with fresh have hx: "h x = None" by (simp add: news)
      from x dist have "x \<noteq> new" by (auto simp: news)
      moreover have "x \<noteq> sl_tail copy"
      proof
        assume "x = sl_tail copy"
        with x0 slist_abs_tail_mem [OF cp] have "x \<in> set cs" by simp
        with cp obtain xn where "h x = Some xn" by (rule slist_abs_load)
        with hx show False by simp
      qed
      ultimately show "h1 x = None" using frame hx by simp
    qed
    from Cons.IH [OF src1 seg1 sub cp1 disj1 dist1 fresh1] obtain st h' r where
      loop: "copy_shallow_loop h1 copy1 (sn_next nd) (tl news) = Some (st, h', r)"
      and src': "slist_abs h' l ns"
      and r: "case r of None \<Rightarrow> st = CC_ERR_ALLOC
               | Some c \<Rightarrow> st = CC_OK \<and> (\<exists>cs'. slist_abs h' c cs' \<and> set cs' \<inter> set ns = {}
                    \<and> map (node_data h') cs' = map (node_data h1) (cs @ [new]) @ map (node_data h1) as)"
      and agree': "\<forall>p\<in>set ns. h' p = h1 p"
      by blast
    have res: "copy_shallow_loop h copy node news = Some (st, h', r)"
      by (simp add: unfold add ld1 loop)
    have d_cs: "map (node_data h1) cs = map (node_data h) cs"
      using dat cp hnew slist_abs_fresh [OF cp hnew] by (auto simp: map_eq_conv)
    have d_as: "map (node_data h1) as = map (node_data h) as"
      using dat sub new_ns by (auto simp: map_eq_conv)
    have d_a: "node_data h a = sn_data nd" by (simp add: node_data_def ha)
    have "case r of None \<Rightarrow> st = CC_ERR_ALLOC
               | Some c \<Rightarrow> st = CC_OK \<and> (\<exists>cs'. slist_abs h' c cs' \<and> set cs' \<inter> set ns = {}
                    \<and> map (node_data h') cs' = map (node_data h) cs @ map (node_data h) (a # as))"
      using r by (simp add: d_cs d_as d_a dnew split: option.splits)
    moreover have "\<forall>p\<in>set ns. h' p = h p" using agree agree' by simp
    ultimately show ?thesis using res src' by blast
  qed
qed

subsection \<open>Every operation keeps the invariant\<close>

lemma copy_shallow_abs:
  assumes abs: "slist_abs h l ns"
    and dist: "distinct news" and fresh: "\<forall>a\<in>set news. a \<noteq> NULL \<longrightarrow> h a = None"
  shows "\<exists>st h' r. cc_slist_copy_shallow ok news h l = Some (st, h', r)
           \<and> slist_abs h' l ns
           \<and> (case r of None \<Rightarrow> st = CC_ERR_ALLOC
               | Some c \<Rightarrow> st = CC_OK \<and> (\<exists>cs'. slist_abs h' c cs' \<and> set cs' \<inter> set ns = {}
                    \<and> map (node_data h') cs' = map (node_data h) ns))"
proof (cases ok)
  case False
  with abs show ?thesis by (simp add: cc_slist_copy_shallow_def cc_slist_new_def)
next
  case True
  define copy where "copy = \<lparr>sl_size = 0, sl_head = NULL, sl_tail = NULL\<rparr>"
  from abs have seg: "lseg h (sl_head l) ns NULL" by (simp add: slist_abs_def)
  have cp: "slist_abs h copy []" by (simp add: slist_abs_def copy_def)
  have "set [] \<inter> set ns = {}" by simp
  from copy_shallow_loop_abs [OF abs seg subset_refl cp this dist fresh,
      unfolded list.map(1) append_Nil]
  obtain st h' r where "copy_shallow_loop h copy (sl_head l) news = Some (st, h', r)"
    and "slist_abs h' l ns"
    and "case r of None \<Rightarrow> st = CC_ERR_ALLOC
               | Some c \<Rightarrow> st = CC_OK \<and> (\<exists>cs'. slist_abs h' c cs' \<and> set cs' \<inter> set ns = {}
                    \<and> map (node_data h') cs' = map (node_data h) ns)"
    by blast
  with True show ?thesis
    by (simp add: cc_slist_copy_shallow_def cc_slist_new_def copy_def)
qed

lemma keeps_invI: "r = Some (st, h', l') \<Longrightarrow> slist_abs h' l' ns \<Longrightarrow> keeps_inv r"
  by (simp add: keeps_inv_def slist_abs_inv)

lemma keeps_inv_outI: "r = Some (st, h', l', out') \<Longrightarrow> slist_abs h' l' ns \<Longrightarrow> keeps_inv_out r"
  by (simp add: keeps_inv_out_def slist_abs_inv)

lemma add_first_keeps:
  assumes "slist_abs h l ns" and "new = NULL \<or> h new = None"
  shows "keeps_inv (cc_slist_add_first h l e new)"
proof (cases "new = NULL")
  case True
  then have "cc_slist_add_first h l e new = Some (CC_ERR_ALLOC, h, l)"
    by (simp add: cc_slist_add_first_def)
  then show ?thesis using assms(1) by (rule keeps_invI)
next
  case False
  with assms add_first_abs [of h l ns new e] show ?thesis by (auto intro: keeps_invI)
qed

lemma add_last_keeps:
  assumes "slist_abs h l ns" and "new = NULL \<or> h new = None"
  shows "keeps_inv (cc_slist_add_last h l e new)"
proof (cases "new = NULL")
  case True
  then have "cc_slist_add_last h l e new = Some (CC_ERR_ALLOC, h, l)"
    by (simp add: cc_slist_add_last_def)
  then show ?thesis using assms(1) by (rule keeps_invI)
next
  case False
  with assms add_last_abs [of h l ns new e] show ?thesis by (auto intro: keeps_invI)
qed

lemma add_at_keeps:
  assumes abs: "slist_abs h l ns" and fresh: "new = NULL \<or> h new = None"
  shows "keeps_inv (cc_slist_add_at h l e index new)"
proof (cases "index < sl_size l")
  case False
  then have "cc_slist_add_at h l e index new = Some (CC_ERR_OUT_OF_RANGE, h, l)"
    by (simp add: add_at_out_of_range_sl)
  then show ?thesis using abs by (rule keeps_invI)
next
  case lt: True
  show ?thesis
  proof (cases "new = NULL")
    case True
    with add_at_alloc_fails [OF abs lt] show ?thesis using abs by (auto intro: keeps_invI)
  next
    case False
    with fresh add_at_abs [OF abs lt, of new e] show ?thesis by (auto intro: keeps_invI)
  qed
qed

lemma remove_keeps:
  assumes abs: "slist_abs h l ns"
  shows "keeps_inv_out (cc_slist_remove h l e out)"
proof (cases "\<exists>x\<in>set ns. node_data h x = e")
  case False
  then have "cc_slist_remove h l e out = Some (CC_ERR_VALUE_NOT_FOUND, h, l, out)"
    using abs by (intro remove_abs_not_found) auto
  then show ?thesis using abs by (rule keeps_inv_outI)
next
  case True
  then obtain as a bs where ns: "ns = as @ a # bs" and a: "node_data h a = e"
    and first: "\<forall>x\<in>set as. node_data h x \<noteq> e"
    using split_list_first_prop [of ns "\<lambda>x. node_data h x = e"] by auto
  from abs have "slist_abs h l (as @ a # bs)" by (simp add: ns)
  from remove_abs_found [OF this a first] show ?thesis by (auto intro: keeps_inv_outI)
qed

lemma remove_at_keeps:
  assumes abs: "slist_abs h l ns"
  shows "keeps_inv_out (cc_slist_remove_at h l index out)"
proof (cases "index < sl_size l")
  case False
  then have "cc_slist_remove_at h l index out = Some (CC_ERR_OUT_OF_RANGE, h, l, out)"
    by (simp add: remove_at_out_of_range)
  then show ?thesis using abs by (rule keeps_inv_outI)
next
  case True
  from remove_at_abs [OF abs True] show ?thesis by (auto intro: keeps_inv_outI)
qed

lemma remove_first_keeps:
  assumes abs: "slist_abs h l ns"
  shows "keeps_inv_out (cc_slist_remove_first h l out)"
proof (cases ns)
  case Nil
  with abs have "sl_size l = 0" by (simp add: slist_abs_def)
  then have "cc_slist_remove_first h l out = Some (CC_ERR_VALUE_NOT_FOUND, h, l, out)"
    by (rule remove_first_empty)
  then show ?thesis using abs by (rule keeps_inv_outI)
next
  case (Cons a as)
  with abs have "slist_abs h l (a # as)" by simp
  from remove_first_abs [OF this] show ?thesis by (auto intro: keeps_inv_outI)
qed

lemma remove_all_keeps:
  assumes abs: "slist_abs h l ns"
  shows "keeps_inv (cc_slist_remove_all h l)"
  using remove_all_abs [OF abs] by (auto intro: keeps_invI)

lemma replace_at_keeps:
  assumes abs: "slist_abs h l ns"
  shows "keeps_inv_out (cc_slist_replace_at h l e index out)"
proof (cases "index < sl_size l")
  case False
  then have "cc_slist_replace_at h l e index out = Some (CC_ERR_OUT_OF_RANGE, h, l, out)"
    by (simp add: replace_at_out_of_range)
  then show ?thesis using abs by (rule keeps_inv_outI)
next
  case True
  from replace_at_abs [OF abs True, of e] show ?thesis by (auto intro: keeps_inv_outI)
qed

lemma reverse_keeps:
  assumes abs: "slist_abs h l ns"
  shows "case cc_slist_reverse h l of None \<Rightarrow> False | Some (h', l') \<Rightarrow> slist_inv h' l'"
  using reverse_abs [OF abs] by (auto intro: slist_abs_inv)

lemma splice_keeps:
  assumes a1: "slist_abs h l1 ns" and a2: "slist_inv h l2"
    and disj: "set (slist_nodes h l1) \<inter> set (slist_nodes h l2) = {}"
  shows "case cc_slist_splice h l1 l2 of None \<Rightarrow> False
         | Some (st, h', l1', l2') \<Rightarrow> slist_inv h' l1' \<and> slist_inv h' l2'"
proof -
  from a2 obtain ms where a2': "slist_abs h l2 ms" using slist_inv_abs by blast
  from disj have "set ns \<inter> set ms = {}"
    by (simp add: slist_abs_nodes [OF a1] slist_abs_nodes [OF a2'])
  from splice_abs [OF a1 a2' this] show ?thesis by (auto intro: slist_abs_inv)
qed

lemma copy_shallow_keeps:
  assumes abs: "slist_abs h l ns"
    and dist: "distinct news" and fresh: "\<forall>a\<in>set news. a \<noteq> NULL \<longrightarrow> h a = None"
  shows "case cc_slist_copy_shallow ok news h l of None \<Rightarrow> False
         | Some (st, h', r) \<Rightarrow>
             slist_inv h' l \<and> (case r of None \<Rightarrow> True | Some c \<Rightarrow> slist_inv h' c)"
  using copy_shallow_abs [OF abs dist fresh, of ok]
  by (auto intro: slist_abs_inv split: option.splits)

lemma new_keeps:
  "case cc_slist_new ok of (st, None) \<Rightarrow> True | (st, Some l0) \<Rightarrow> slist_inv h l0"
  by (simp add: cc_slist_new_def slist_inv_def)

text \<open>
  C6. From a list that satisfies the structural invariant, and with an allocator that
  returns \<open>NULL\<close> or an address that was not allocated, every list operation returns,
  and what it returns satisfies the invariant: \<open>add_first\<close>, \<open>add_last\<close>, \<open>add_at\<close>,
  \<open>remove\<close>, \<open>remove_at\<close>, \<open>remove_first\<close> (all three through \<open>unlinkn\<close>),
  \<open>remove_all\<close>, \<open>remove_all_cb\<close>, \<open>replace_at\<close>, \<open>reverse\<close>, \<open>splice\<close> with a
  second list on other nodes (both lists), \<open>copy_shallow\<close> (the source and the copy) and
  \<open>cc_slist_new\<close>.
\<close>

theorem slist_operations_keep_invariant:
  assumes inv: "slist_inv h l" and fresh: "new = NULL \<or> h new = None"
  shows "keeps_inv (cc_slist_add_first h l e new)
    \<and> keeps_inv (cc_slist_add_last h l e new)
    \<and> keeps_inv (cc_slist_add_at h l e index new)
    \<and> keeps_inv_out (cc_slist_remove h l e out)
    \<and> keeps_inv_out (cc_slist_remove_at h l index out)
    \<and> keeps_inv_out (cc_slist_remove_first h l out)
    \<and> keeps_inv (cc_slist_remove_all h l)
    \<and> keeps_inv (cc_slist_remove_all_cb h l)
    \<and> keeps_inv_out (cc_slist_replace_at h l e index out)
    \<and> (case cc_slist_reverse h l of None \<Rightarrow> False | Some (h', l') \<Rightarrow> slist_inv h' l')
    \<and> (slist_inv h l2 \<and> set (slist_nodes h l) \<inter> set (slist_nodes h l2) = {} \<longrightarrow>
          (case cc_slist_splice h l l2 of None \<Rightarrow> False
           | Some (st, h', l1', l2') \<Rightarrow> slist_inv h' l1' \<and> slist_inv h' l2'))
    \<and> (distinct news \<and> (\<forall>a\<in>set news. a \<noteq> NULL \<longrightarrow> h a = None) \<longrightarrow>
          (case cc_slist_copy_shallow ok news h l of None \<Rightarrow> False
           | Some (st, h', r) \<Rightarrow>
               slist_inv h' l \<and> (case r of None \<Rightarrow> True | Some c \<Rightarrow> slist_inv h' c)))
    \<and> (case cc_slist_new ok of (st, None) \<Rightarrow> True | (st, Some l0) \<Rightarrow> slist_inv h l0)"
proof -
  from inv obtain ns where abs: "slist_abs h l ns" using slist_inv_abs by blast
  show ?thesis
    using add_first_keeps [OF abs fresh] add_last_keeps [OF abs fresh]
      add_at_keeps [OF abs fresh] remove_keeps [OF abs] remove_at_keeps [OF abs]
      remove_first_keeps [OF abs] remove_all_keeps [OF abs] replace_at_keeps [OF abs]
      reverse_keeps [OF abs] splice_keeps [OF abs] copy_shallow_keeps [OF abs] new_keeps
    by (simp add: remove_all_cb_eq)
qed

subsection \<open>The claims about the list\<close>

lemma heap_abc_simps [simp]:
  "heap_abc 1 = Some \<lparr>sn_data = 10, sn_next = 2\<rparr>"
  "heap_abc 2 = Some \<lparr>sn_data = 11, sn_next = 3\<rparr>"
  "heap_abc 3 = Some \<lparr>sn_data = 12, sn_next = NULL\<rparr>"
  "heap_abc 5 = Some \<lparr>sn_data = 20, sn_next = NULL\<rparr>"
  "heap_abc 4 = None" "heap_abc 6 = None" "heap_abc 7 = None" "heap_abc 8 = None"
  by (simp_all add: heap_abc_def)

lemma list_abc_abs: "slist_abs heap_abc list_abc [1, 2, 3]"
  by (simp add: slist_abs_def list_abc_def load_def)

lemma list_d_abs: "slist_abs heap_abc list_d [5]"
  by (simp add: slist_abs_def list_d_def load_def)

lemma list_empty_abs: "slist_abs h list_empty []"
  by (simp add: slist_abs_def list_empty_def)

lemma concrete_lists:
  "slist_inv heap_abc list_abc" "slist_inv heap_abc list_d" "slist_inv h list_empty"
  "slist_nodes heap_abc list_abc = [1, 2, 3]" "slist_nodes heap_abc list_d = [5]"
  "slist_elems heap_abc list_abc = [10, 11, 12]" "slist_elems heap_abc list_d = [20]"
  using list_abc_abs list_d_abs list_empty_abs [of h]
  by (simp_all add: slist_abs_inv slist_abs_nodes slist_abs_elems node_data_def)

text \<open>
  C5. For two lists that satisfy the invariant and share no node, \<open>splice\<close> returns
  \<open>CC_OK\<close>; afterwards the first list holds its elements followed by those of the
  second, in order, its size is the sum of the sizes (without wrapping), and the second
  list has size 0 and null head and tail.
\<close>

theorem splice_appends:
  assumes "slist_inv h a" and "slist_inv h b"
    and "set (slist_nodes h a) \<inter> set (slist_nodes h b) = {}"
  shows "case cc_slist_splice h a b of
           None \<Rightarrow> False
         | Some (status, h', a', b') \<Rightarrow>
             status = CC_OK
             \<and> slist_elems h' a' = slist_elems h a @ slist_elems h b
             \<and> slist_nodes h' a' = slist_nodes h a @ slist_nodes h b
             \<and> sl_size a' = sl_size a + sl_size b
             \<and> unat (sl_size a') = unat (sl_size a) + unat (sl_size b)
             \<and> sl_size b' = 0 \<and> sl_head b' = NULL \<and> sl_tail b' = NULL
             \<and> slist_elems h' b' = []
             \<and> slist_inv h' a' \<and> slist_inv h' b'"
proof -
  from assms(1) obtain ns where a: "slist_abs h a ns" using slist_inv_abs by blast
  from assms(2) obtain ms where b: "slist_abs h b ms" using slist_inv_abs by blast
  from assms(3) have disj: "set ns \<inter> set ms = {}"
    by (simp add: slist_abs_nodes [OF a] slist_abs_nodes [OF b])
  from splice_abs [OF a b disj] obtain h' a' b' where
    res: "cc_slist_splice h a b = Some (CC_OK, h', a', b')"
    and a': "slist_abs h' a' (ns @ ms)" and b': "slist_abs h' b' []"
    and z: "sl_size b' = 0" "sl_head b' = NULL" "sl_tail b' = NULL"
    and sz: "sl_size a' = sl_size a + sl_size b"
    and dat: "\<forall>p. node_data h' p = node_data h p"
    by blast
  have "unat (sl_size a') = unat (sl_size a) + unat (sl_size b)"
    using slist_abs_unat [OF a'] slist_abs_unat [OF a] slist_abs_unat [OF b] by simp
  moreover have "slist_elems h' a' = slist_elems h a @ slist_elems h b"
    using dat by (simp add: slist_abs_elems [OF a'] slist_abs_elems [OF a] slist_abs_elems [OF b])
  moreover have "slist_nodes h' a' = slist_nodes h a @ slist_nodes h b"
    by (simp add: slist_abs_nodes [OF a'] slist_abs_nodes [OF a] slist_abs_nodes [OF b])
  moreover have "slist_elems h' b' = []" by (simp add: slist_abs_elems [OF b'])
  moreover have "slist_inv h' a'" using a' by (rule slist_abs_inv)
  moreover have "slist_inv h' b'" using b' by (rule slist_abs_inv)
  ultimately show ?thesis using res z sz by simp
qed

theorem splice_appends_witness:
  "slist_inv heap_abc list_abc \<and> slist_inv heap_abc list_d
   \<and> set (slist_nodes heap_abc list_abc) \<inter> set (slist_nodes heap_abc list_d) = {}
   \<and> slist_elems heap_abc list_abc = [10, 11, 12] \<and> slist_elems heap_abc list_d = [20]
   \<and> (case cc_slist_splice heap_abc list_abc list_d of
         None \<Rightarrow> False
       | Some (status, h', a', b') \<Rightarrow>
           status = CC_OK \<and> slist_elems h' a' = [10, 11, 12, 20]
           \<and> unat (sl_size a') = 4 \<and> sl_size b' = 0 \<and> sl_head b' = NULL \<and> sl_tail b' = NULL)"
proof -
  have disj: "set (slist_nodes heap_abc list_abc) \<inter> set (slist_nodes heap_abc list_d) = {}"
    by (simp add: concrete_lists)
  have sz: "unat (sl_size list_abc) = 3" "unat (sl_size list_d) = 1"
    by (simp_all add: list_abc_def list_d_def)
  from splice_appends [OF concrete_lists(1) concrete_lists(2) disj] disj sz
  show ?thesis
    by (auto simp: concrete_lists split: option.splits)
qed

text \<open>
  C7. The list's \<open>add_at\<close> reports \<open>CC_ERR_OUT_OF_RANGE\<close>, and changes nothing, whenever
  \<open>index \<ge> size\<close>, in particular at \<open>index = size\<close> and at any index of an empty list,
  whereas the array's \<open>add_at\<close> at \<open>index = size\<close> is \<open>add\<close> and never reports
  \<open>CC_ERR_OUT_OF_RANGE\<close>.
\<close>

theorem slist_add_at_rejects_append:
  assumes "sl_size l \<le> index"
  shows "cc_slist_add_at h l e index new = Some (CC_ERR_OUT_OF_RANGE, h, l)
    \<and> cc_slist_add_at h l e (sl_size l) new = Some (CC_ERR_OUT_OF_RANGE, h, l)
    \<and> cc_array_add_at CC_MAX_ELEMENTS ok ar x (ar_size ar) = cc_array_add CC_MAX_ELEMENTS ok ar x
    \<and> cc_array_add_at CC_MAX_ELEMENTS ok ar x (ar_size ar) \<noteq> Some (CC_ERR_OUT_OF_RANGE, ar')"
  using assms add_at_status [of "ar_size ar" ar CC_MAX_ELEMENTS ok x ar']
  by (simp add: add_at_out_of_range_sl add_at_append)

theorem slist_add_at_rejects_append_witness:
  "sl_size list_abc \<le> 3 \<and> sl_size list_empty \<le> 0
   \<and> cc_slist_add_at heap_abc list_abc 99 3 4 = Some (CC_ERR_OUT_OF_RANGE, heap_abc, list_abc)
   \<and> cc_slist_add_at heap_abc list_empty 99 0 4 = Some (CC_ERR_OUT_OF_RANGE, heap_abc, list_empty)
   \<and> (\<exists>ar'. cc_array_add_at 0xFFFFFFFFFFFFFFFE True ar_abcd 99 4 = Some (CC_OK, ar'))"
proof -
  have a: "sl_size list_abc \<le> 3" and b: "sl_size list_empty \<le> 0"
    by (simp_all add: list_abc_def list_empty_def)
  have "cc_array_add 0xFFFFFFFFFFFFFFFE True ar_abcd 99
        = Some (CC_OK, ar_abcd\<lparr>ar_buffer := (ar_buffer ar_abcd)[4 := Some 99], ar_size := 5\<rparr>)"
    by (simp add: cc_array_add_def ar_abcd_def buf_write_def)
  moreover have "ar_size ar_abcd = 4" by (simp add: ar_abcd_def)
  ultimately show ?thesis
    using slist_add_at_rejects_append [OF a, of heap_abc 99 4 "0xFFFFFFFFFFFFFFFE" True ar_abcd 99 ar_abcd]
      slist_add_at_rejects_append [OF b, of heap_abc 99 4 "0xFFFFFFFFFFFFFFFE" True ar_abcd 99 ar_abcd]
      a b
    by (simp add: list_abc_def)
qed

theorem slist_operations_keep_invariant_witness:
  "slist_inv heap_abc list_abc \<and> heap_abc 4 = None \<and> slist_inv heap_abc list_d
   \<and> set (slist_nodes heap_abc list_abc) \<inter> set (slist_nodes heap_abc list_d) = {}
   \<and> distinct [6, 7, 8 :: ptr] \<and> heap_abc 6 = None \<and> heap_abc 7 = None \<and> heap_abc 8 = None
   \<and> keeps_inv (cc_slist_add_first heap_abc list_abc 11 4)
   \<and> keeps_inv (cc_slist_add_last heap_abc list_abc 11 4)
   \<and> keeps_inv (cc_slist_add_at heap_abc list_abc 11 1 4)
   \<and> keeps_inv_out (cc_slist_remove heap_abc list_abc 11 Out_NULL)
   \<and> keeps_inv_out (cc_slist_remove_at heap_abc list_abc 1 Out_NULL)
   \<and> keeps_inv_out (cc_slist_remove_first heap_abc list_abc Out_NULL)
   \<and> keeps_inv (cc_slist_remove_all heap_abc list_abc)
   \<and> keeps_inv (cc_slist_remove_all_cb heap_abc list_abc)
   \<and> keeps_inv_out (cc_slist_replace_at heap_abc list_abc 11 1 Out_NULL)
   \<and> (case cc_slist_reverse heap_abc list_abc of None \<Rightarrow> False
       | Some (h', l') \<Rightarrow> slist_inv h' l')
   \<and> (case cc_slist_splice heap_abc list_abc list_d of None \<Rightarrow> False
       | Some (st, h', l1', l2') \<Rightarrow> slist_inv h' l1' \<and> slist_inv h' l2')
   \<and> (case cc_slist_copy_shallow True [6, 7, 8] heap_abc list_abc of None \<Rightarrow> False
       | Some (st, h', r) \<Rightarrow>
           slist_inv h' list_abc \<and> (case r of None \<Rightarrow> True | Some c \<Rightarrow> slist_inv h' c))"
proof -
  have fresh: "4 = NULL \<or> heap_abc 4 = None" by simp
  have disj: "set (slist_nodes heap_abc list_abc) \<inter> set (slist_nodes heap_abc list_d) = {}"
    by (simp add: concrete_lists)
  have news: "distinct [6, 7, 8 :: ptr] \<and> (\<forall>a\<in>set [6, 7, 8]. a \<noteq> NULL \<longrightarrow> heap_abc a = None)"
    by simp
  from slist_operations_keep_invariant [OF concrete_lists(1) fresh,
      of 11 1 Out_NULL list_d "[6, 7, 8]" True]
    concrete_lists(1,2) disj news
  show ?thesis
    by simp
qed

subsection \<open>Reversing an array\<close>

lemma array_wf_nth:
  "array_wf ar \<longleftrightarrow>
     ar_size ar \<le> ar_capacity ar \<and> unat (ar_capacity ar) \<le> length (ar_buffer ar)
     \<and> (\<forall>k < unat (ar_size ar). ar_buffer ar ! k \<noteq> None)"
proof -
  have "unat (ar_size ar) \<le> length (ar_buffer ar)"
    if "ar_size ar \<le> ar_capacity ar" "unat (ar_capacity ar) \<le> length (ar_buffer ar)"
    using that by (simp add: word_le_nat_alt)
  then show ?thesis
    by (auto simp: array_wf_def list_all_length)
qed

lemma reverse_loop_spec:
  assumes "unat (ar_size ar) = n" and "n \<le> length (ar_buffer ar)"
    and "unat i + unat j + 1 = n" and "unat i \<le> n div 2"
    and "\<forall>k<n. ar_buffer ar ! k \<noteq> None"
    and "d = n div 2 - unat i"
  shows "\<exists>B'. reverse_loop ar i j = Some (ar\<lparr>ar_buffer := B'\<rparr>)
           \<and> length B' = length (ar_buffer ar)
           \<and> (\<forall>k<length B'. B' ! k = (if unat i \<le> k \<and> k < n - unat i
                                         then ar_buffer ar ! (n - 1 - k) else ar_buffer ar ! k))"
  using assms
proof (induction d arbitrary: ar i j)
  case 0
  have half: "unat (ar_size ar div 2) = n div 2" by (simp add: unat_div "0.prems"(1))
  from 0 have i: "unat i = n div 2" by simp
  then have "\<not> i < ar_size ar div 2" by (simp add: word_less_nat_alt half)
  then have "reverse_loop ar i j = Some ar" by (subst reverse_loop.simps) simp
  moreover have "ar_buffer ar ! (n - 1 - k) = ar_buffer ar ! k"
    if "unat i \<le> k" "k < n - unat i" for k
  proof -
    from that i have "n - 1 - k = k" by simp
    then show ?thesis by simp
  qed
  ultimately show ?case by (intro exI [of _ "ar_buffer ar"]) auto
next
  case (Suc d)
  define B where "B = ar_buffer ar"
  define a where "a = unat i"
  define b where "b = unat j"
  have half: "unat (ar_size ar div 2) = n div 2" by (simp add: unat_div Suc.prems(1))
  from Suc.prems have a_half: "a < n div 2" by (simp add: a_def)
  then have lt: "i < ar_size ar div 2" by (simp add: word_less_nat_alt half a_def)
  from Suc.prems(3) have sum: "a + b + 1 = n" by (simp add: a_def b_def)
  with a_half have ab: "a < b" and bn: "b < n" by arith+
  from Suc.prems(2) have nl: "n \<le> length B" by (simp add: B_def)
  from Suc.prems(5) ab bn obtain va vb where va: "B ! a = Some va" and vb: "B ! b = Some vb"
    unfolding B_def by (metis less_trans not_None_eq)
  define B2 where "B2 = B[a := Some vb, b := Some va]"
  define ar2 where "ar2 = ar\<lparr>ar_buffer := B2\<rparr>"
  have step: "reverse_loop ar i j = reverse_loop ar2 (i + 1) (j - 1)"
    using lt ab bn nl va vb
    by (subst reverse_loop.simps)
      (simp add: buf_read_def buf_write_def B_def [symmetric] a_def [symmetric]
        b_def [symmetric] B2_def ar2_def)
  have i1: "unat (i + 1) = a + 1" unfolding a_def using lt by (rule unat_succ_less)
  have "j \<noteq> 0" using ab by (auto simp: b_def)
  then have j1: "unat (j - 1) = b - 1" by (simp add: unat_minus_one b_def)
  have p1: "unat (ar_size ar2) = n" by (simp add: ar2_def Suc.prems(1))
  have p2: "n \<le> length (ar_buffer ar2)" using nl by (simp add: ar2_def B2_def)
  have p3: "unat (i + 1) + unat (j - 1) + 1 = n" using sum ab by (simp add: i1 j1)
  have p4: "unat (i + 1) \<le> n div 2" using a_half by (simp add: i1)
  have p5: "\<forall>k<n. ar_buffer ar2 ! k \<noteq> None"
  proof (intro allI impI)
    fix k assume k: "k < n"
    with Suc.prems(5) have "B ! k \<noteq> None" by (simp add: B_def)
    moreover from ab bn nl have "a < length B" "b < length B" by simp_all
    ultimately show "ar_buffer ar2 ! k \<noteq> None"
      by (auto simp: ar2_def B2_def nth_list_update)
  qed
  have p6: "d = n div 2 - unat (i + 1)" using Suc.prems(6) by (simp add: i1 a_def)
  from Suc.IH [OF p1 p2 p3 p4 p5 p6] obtain B' where
    res: "reverse_loop ar2 (i + 1) (j - 1) = Some (ar2\<lparr>ar_buffer := B'\<rparr>)"
    and len: "length B' = length B2"
    and nth: "\<forall>k<length B'. B' ! k = (if a + 1 \<le> k \<and> k < n - (a + 1)
                                         then B2 ! (n - 1 - k) else B2 ! k)"
    by (auto simp: i1 ar2_def)
  have len': "length B' = length B" by (simp add: len B2_def)
  have "B' ! k = (if a \<le> k \<and> k < n - a then B ! (n - 1 - k) else B ! k)"
    if k: "k < length B'" for k
  proof -
    from k len' have kl: "k < length B" by simp
    from nth k have inst: "B' ! k = (if a + 1 \<le> k \<and> k < n - (a + 1)
                                       then B2 ! (n - 1 - k) else B2 ! k)"
      by blast
    have al: "a < length B" and bl: "b < length B" using ab bn nl by simp_all
    have B2nth: "B2 ! m = (if m = b then Some va else if m = a then Some vb else B ! m)"
      if "m < length B" for m
      using that al bl by (simp add: B2_def nth_list_update)
    consider "k < a" | "k = a" | "a < k" "k < b" | "k = b" | "b < k" by arith
    then show ?thesis
    proof cases
      case 1
      with ab have c: "\<not> a + 1 \<le> k" "\<not> a \<le> k" "k \<noteq> a" "k \<noteq> b" by arith+
      show ?thesis unfolding inst using c by (simp add: B2nth [OF kl])
    next
      case 2
      with sum ab have c: "\<not> a + 1 \<le> k" "a \<le> k" "k < n - a" "k \<noteq> b" "n - 1 - k = b"
        by arith+
      from B2nth [OF kl] 2 ab have "B2 ! k = Some vb" by simp
      moreover from 2 c vb have "B ! (n - 1 - k) = Some vb" by simp
      ultimately show ?thesis unfolding inst using c by simp
    next
      case 3
      with sum have c: "a + 1 \<le> k" "k < n - (a + 1)" "n - 1 - k \<noteq> a" "n - 1 - k \<noteq> b"
        "a \<le> k" "k < n - a" "n - 1 - k < n" by arith+
      from c(7) nl have "n - 1 - k < length B" by simp
      from B2nth [OF this] c show ?thesis unfolding inst by simp
    next
      case 4
      with sum ab have c: "n - 1 - k = a" "\<not> k < n - (a + 1)" "a \<le> k" "k < n - a" "k \<noteq> a"
        by arith+
      from B2nth [OF kl] 4 have "B2 ! k = Some va" by simp
      moreover from c va have "B ! (n - 1 - k) = Some va" by simp
      ultimately show ?thesis unfolding inst using c by simp
    next
      case 5
      with sum ab have c: "\<not> k < n - (a + 1)" "\<not> k < n - a" "k \<noteq> a" "k \<noteq> b" by arith+
      show ?thesis unfolding inst using c by (simp add: B2nth [OF kl])
    qed
  qed
  then have "\<forall>k<length B'. B' ! k = (if unat i \<le> k \<and> k < n - unat i
                                         then ar_buffer ar ! (n - 1 - k) else ar_buffer ar ! k)"
    by (simp add: a_def B_def)
  moreover have "reverse_loop ar i j = Some (ar\<lparr>ar_buffer := B'\<rparr>)"
    using step res by (simp add: ar2_def)
  ultimately show ?case using len' by (auto simp: B_def)
qed

lemma array_reverse_spec:
  assumes wf: "array_wf ar"
  shows "\<exists>B'. cc_array_reverse ar = Some (ar\<lparr>ar_buffer := B'\<rparr>)
           \<and> length B' = length (ar_buffer ar)
           \<and> (\<forall>k<length B'. B' ! k = (if k < unat (ar_size ar)
                                         then ar_buffer ar ! (unat (ar_size ar) - 1 - k)
                                         else ar_buffer ar ! k))"
proof (cases "ar_size ar = 0")
  case True
  then have "cc_array_reverse ar = Some (ar\<lparr>ar_buffer := ar_buffer ar\<rparr>)"
    by (simp add: cc_array_reverse_def)
  with True show ?thesis by (intro exI [of _ "ar_buffer ar"]) simp
next
  case False
  define n where "n = unat (ar_size ar)"
  from False have n0: "0 < n" by (simp add: n_def unat_gt_0)
  from wf have nl: "n \<le> length (ar_buffer ar)" and init: "\<forall>k<n. ar_buffer ar ! k \<noteq> None"
    by (simp_all add: array_wf_nth n_def word_le_nat_alt)
  have j: "unat (ar_size ar - 1) = n - 1" using False by (simp add: unat_minus_one n_def)
  have p3: "unat (0 :: size_t) + unat (ar_size ar - 1) + 1 = n" using n0 by (simp add: j)
  have p4: "unat (0 :: size_t) \<le> n div 2" by simp
  from reverse_loop_spec [OF n_def [symmetric] nl p3 p4 init refl]
  obtain B' where "reverse_loop ar 0 (ar_size ar - 1) = Some (ar\<lparr>ar_buffer := B'\<rparr>)"
    "length B' = length (ar_buffer ar)"
    "\<forall>k<length B'. B' ! k = (if k < n then ar_buffer ar ! (n - 1 - k) else ar_buffer ar ! k)"
    by auto
  with False show ?thesis
    by (intro exI [of _ B']) (simp add: cc_array_reverse_def n_def)
qed

lemma array_reverse_elems:
  assumes wf: "array_wf ar"
  shows "\<exists>ar1. cc_array_reverse ar = Some ar1 \<and> array_wf ar1
           \<and> array_elems ar1 = rev (array_elems ar)
           \<and> ar_size ar1 = ar_size ar \<and> ar_capacity ar1 = ar_capacity ar
           \<and> ar_exp_factor ar1 = ar_exp_factor ar
           \<and> length (ar_buffer ar1) = length (ar_buffer ar)
           \<and> drop (unat (ar_size ar)) (ar_buffer ar1) = drop (unat (ar_size ar)) (ar_buffer ar)"
proof -
  define n where "n = unat (ar_size ar)"
  define B where "B = ar_buffer ar"
  from array_reverse_spec [OF wf] obtain B' where
    res: "cc_array_reverse ar = Some (ar\<lparr>ar_buffer := B'\<rparr>)"
    and len: "length B' = length B"
    and nth: "\<And>k. k < length B' \<Longrightarrow> B' ! k = (if k < n then B ! (n - 1 - k) else B ! k)"
    unfolding n_def B_def by blast
  from wf have nl: "n \<le> length B" and init: "\<And>k. k < n \<Longrightarrow> B ! k \<noteq> None"
    and sc: "ar_size ar \<le> ar_capacity ar" and cl: "unat (ar_capacity ar) \<le> length B"
    by (simp_all add: array_wf_nth n_def B_def word_le_nat_alt)
  have low: "B' ! k = B ! (n - 1 - k)" if "k < n" for k
    using nth [of k] that nl len by simp
  have wf1: "array_wf (ar\<lparr>ar_buffer := B'\<rparr>)"
    unfolding array_wf_nth
  proof (intro conjI allI impI)
    fix k assume "k < unat (ar_size (ar\<lparr>ar_buffer := B'\<rparr>))"
    then have k: "k < n" by (simp add: n_def)
    then have "n - 1 - k < n" by arith
    from init [OF this] low [OF k]
    show "ar_buffer (ar\<lparr>ar_buffer := B'\<rparr>) ! k \<noteq> None" by simp
  qed (use sc cl len in simp_all)
  have "map the (take n B') = rev (map the (take n B))"
  proof (rule nth_equalityI)
    show "length (map the (take n B')) = length (rev (map the (take n B)))"
      using nl len by simp
  next
    fix k assume "k < length (map the (take n B'))"
    with nl len have k: "k < n" by simp
    then have k': "n - Suc k < n" by arith
    from k nl len have "map the (take n B') ! k = the (B' ! k)" by simp
    also have "\<dots> = the (B ! (n - 1 - k))" by (simp add: low [OF k])
    also have "\<dots> = rev (map the (take n B)) ! k"
      using k k' nl by (simp add: rev_nth)
    finally show "map the (take n B') ! k = rev (map the (take n B)) ! k" .
  qed
  then have elems: "array_elems (ar\<lparr>ar_buffer := B'\<rparr>) = rev (array_elems ar)"
    by (simp add: array_elems_def n_def B_def)
  have "drop n B' = drop n B"
  proof (rule nth_equalityI)
    show "length (drop n B') = length (drop n B)" using len by simp
  next
    fix k assume "k < length (drop n B')"
    then have "n + k < length B'" by simp
    with nth [of "n + k"] len show "drop n B' ! k = drop n B ! k" by simp
  qed
  with res wf1 elems len show ?thesis
    by (intro exI [of _ "ar\<lparr>ar_buffer := B'\<rparr>"]) (simp add: n_def B_def)
qed

lemma array_eq_of_elems:
  assumes "array_wf ar" and "array_wf ar2" and "array_elems ar2 = array_elems ar"
    and "ar_size ar2 = ar_size ar" and "ar_capacity ar2 = ar_capacity ar"
    and "ar_exp_factor ar2 = ar_exp_factor ar"
    and "length (ar_buffer ar2) = length (ar_buffer ar)"
    and "drop (unat (ar_size ar)) (ar_buffer ar2) = drop (unat (ar_size ar)) (ar_buffer ar)"
  shows "ar2 = ar"
proof -
  define n where "n = unat (ar_size ar)"
  have "take n (ar_buffer ar2) = take n (ar_buffer ar)"
  proof (rule nth_equalityI)
    show "length (take n (ar_buffer ar2)) = length (take n (ar_buffer ar))"
      using assms(7) by simp
  next
    fix k assume "k < length (take n (ar_buffer ar2))"
    then have k: "k < n" and kl: "k < length (ar_buffer ar2)" by simp_all
    from assms(1,2,4) k have "ar_buffer ar ! k \<noteq> None" "ar_buffer ar2 ! k \<noteq> None"
      by (simp_all add: array_wf_nth n_def)
    moreover have "array_elems ar2 ! k = array_elems ar ! k" by (simp add: assms(3))
    then have "the (ar_buffer ar2 ! k) = the (ar_buffer ar ! k)"
      using k kl assms(4,7) by (simp add: array_elems_def n_def)
    ultimately have "ar_buffer ar2 ! k = ar_buffer ar ! k" by (auto simp: option.expand)
    with k kl assms(7) show "take n (ar_buffer ar2) ! k = take n (ar_buffer ar) ! k" by simp
  qed
  with assms(8) have "ar_buffer ar2 = ar_buffer ar"
    unfolding n_def [symmetric] by (metis append_take_drop_id)
  with assms(4,5,6) show ?thesis by simp
qed

lemma array_reverse_twice:
  assumes wf: "array_wf ar"
  shows "\<exists>ar1. cc_array_reverse ar = Some ar1 \<and> array_wf ar1
           \<and> array_elems ar1 = rev (array_elems ar) \<and> cc_array_reverse ar1 = Some ar"
proof -
  from array_reverse_elems [OF wf] obtain ar1 where
    r1: "cc_array_reverse ar = Some ar1" and wf1: "array_wf ar1"
    and e1: "array_elems ar1 = rev (array_elems ar)"
    and s1: "ar_size ar1 = ar_size ar" and c1: "ar_capacity ar1 = ar_capacity ar"
    and f1: "ar_exp_factor ar1 = ar_exp_factor ar"
    and l1: "length (ar_buffer ar1) = length (ar_buffer ar)"
    and d1: "drop (unat (ar_size ar)) (ar_buffer ar1) = drop (unat (ar_size ar)) (ar_buffer ar)"
    by blast
  from array_reverse_elems [OF wf1] obtain ar2 where
    r2: "cc_array_reverse ar1 = Some ar2" and wf2: "array_wf ar2"
    and e2: "array_elems ar2 = rev (array_elems ar1)"
    and s2: "ar_size ar2 = ar_size ar1" and c2: "ar_capacity ar2 = ar_capacity ar1"
    and f2: "ar_exp_factor ar2 = ar_exp_factor ar1"
    and l2: "length (ar_buffer ar2) = length (ar_buffer ar1)"
    and d2: "drop (unat (ar_size ar1)) (ar_buffer ar2) = drop (unat (ar_size ar1)) (ar_buffer ar1)"
    by blast
  have "ar2 = ar"
    by (rule array_eq_of_elems [OF wf wf2])
      (simp_all add: e1 e2 s1 s2 c1 c2 f1 f2 l1 l2 d1 d2 [unfolded s1])
  with r1 r2 wf1 e1 show ?thesis by simp
qed

subsection \<open>Reversing twice\<close>

lemma slist_abs_same:
  assumes "slist_abs h l ns" and "slist_abs h' l' ns"
  shows "l' = l"
proof -
  have "sl_head l' = sl_head l"
    using assms by (cases ns) (simp_all add: slist_abs_def)
  with assms show ?thesis by (simp add: slist_abs_def)
qed

lemma slist_reverse_twice:
  assumes inv: "slist_inv h l"
  shows "\<exists>h1 l1 h2. cc_slist_reverse h l = Some (h1, l1)
           \<and> slist_inv h1 l1
           \<and> slist_nodes h1 l1 = rev (slist_nodes h l)
           \<and> slist_elems h1 l1 = rev (slist_elems h l)
           \<and> sl_tail l1 = sl_head l
           \<and> cc_slist_reverse h1 l1 = Some (h2, l)
           \<and> slist_inv h2 l
           \<and> slist_nodes h2 l = slist_nodes h l
           \<and> slist_elems h2 l = slist_elems h l"
proof -
  from inv obtain ns where abs: "slist_abs h l ns" using slist_inv_abs by blast
  from reverse_abs [OF abs] obtain h1 l1 where
    r1: "cc_slist_reverse h l = Some (h1, l1)" and abs1: "slist_abs h1 l1 (rev ns)"
    and d1: "\<forall>p. node_data h1 p = node_data h p" and t1: "sl_tail l1 = sl_head l"
    by blast
  from reverse_abs [OF abs1] obtain h2 l2 where
    r2: "cc_slist_reverse h1 l1 = Some (h2, l2)" and abs2: "slist_abs h2 l2 ns"
    and d2: "\<forall>p. node_data h2 p = node_data h1 p"
    by auto
  have l2: "l2 = l" using abs abs2 by (rule slist_abs_same)
  have "slist_elems h1 l1 = rev (slist_elems h l)"
    using d1 by (simp add: slist_abs_elems [OF abs1] slist_abs_elems [OF abs] rev_map)
  moreover have "slist_elems h2 l = slist_elems h l"
    using d1 d2 abs2 by (simp add: slist_abs_elems [OF abs2 [unfolded l2]] slist_abs_elems [OF abs])
  moreover have "slist_nodes h1 l1 = rev (slist_nodes h l)"
    by (simp add: slist_abs_nodes [OF abs1] slist_abs_nodes [OF abs])
  moreover have "slist_nodes h2 l = slist_nodes h l"
    by (simp add: slist_abs_nodes [OF abs2 [unfolded l2]] slist_abs_nodes [OF abs])
  moreover have "slist_inv h1 l1" using abs1 by (rule slist_abs_inv)
  moreover have "slist_inv h2 l" using abs2 [unfolded l2] by (rule slist_abs_inv)
  ultimately show ?thesis using r1 r2 t1 l2 by blast
qed

text \<open>
  C8. Reversing a well-formed array, or a list that satisfies the invariant, returns, and
  reverses the order of the elements; reversing the result again returns the container
  it started from, with its elements in the original order. After one reversal of a list
  its tail is the node that was its head.
\<close>

theorem reverse_is_involution:
  assumes "array_wf ar" and "slist_inv h l"
  shows "(case cc_array_reverse ar of
            None \<Rightarrow> False
          | Some ar1 \<Rightarrow>
              array_elems ar1 = rev (array_elems ar)
              \<and> cc_array_reverse ar1 = Some ar)
       \<and> (case cc_slist_reverse h l of
            None \<Rightarrow> False
          | Some (h1, l1) \<Rightarrow>
              slist_elems h1 l1 = rev (slist_elems h l)
              \<and> slist_nodes h1 l1 = rev (slist_nodes h l)
              \<and> sl_tail l1 = sl_head l
              \<and> (case cc_slist_reverse h1 l1 of
                    None \<Rightarrow> False
                  | Some (h2, l2) \<Rightarrow>
                      l2 = l
                      \<and> slist_elems h2 l2 = slist_elems h l
                      \<and> slist_nodes h2 l2 = slist_nodes h l))"
proof
  from array_reverse_twice [OF assms(1)] obtain ar1 where
    "cc_array_reverse ar = Some ar1" "array_elems ar1 = rev (array_elems ar)"
    "cc_array_reverse ar1 = Some ar"
    by blast
  then show "case cc_array_reverse ar of
               None \<Rightarrow> False
             | Some ar1 \<Rightarrow>
                 array_elems ar1 = rev (array_elems ar) \<and> cc_array_reverse ar1 = Some ar"
    by simp
next
  from slist_reverse_twice [OF assms(2)] obtain h1 l1 h2 where
    "cc_slist_reverse h l = Some (h1, l1)"
    "slist_elems h1 l1 = rev (slist_elems h l)" "slist_nodes h1 l1 = rev (slist_nodes h l)"
    "sl_tail l1 = sl_head l" "cc_slist_reverse h1 l1 = Some (h2, l)"
    "slist_elems h2 l = slist_elems h l" "slist_nodes h2 l = slist_nodes h l"
    by blast
  then show "case cc_slist_reverse h l of
               None \<Rightarrow> False
             | Some (h1, l1) \<Rightarrow>
                 slist_elems h1 l1 = rev (slist_elems h l)
                 \<and> slist_nodes h1 l1 = rev (slist_nodes h l)
                 \<and> sl_tail l1 = sl_head l
                 \<and> (case cc_slist_reverse h1 l1 of
                       None \<Rightarrow> False
                     | Some (h2, l2) \<Rightarrow>
                         l2 = l
                         \<and> slist_elems h2 l2 = slist_elems h l
                         \<and> slist_nodes h2 l2 = slist_nodes h l)"
    by simp
qed

theorem reverse_is_involution_witness:
  "array_wf ar_abcd \<and> slist_inv heap_abc list_abc
   \<and> array_elems ar_abcd = [10, 11, 12, 13] \<and> slist_elems heap_abc list_abc = [10, 11, 12]
   \<and> (case cc_array_reverse ar_abcd of
         None \<Rightarrow> False
       | Some ar1 \<Rightarrow> array_elems ar1 = [13, 12, 11, 10] \<and> cc_array_reverse ar1 = Some ar_abcd)
   \<and> (case cc_slist_reverse heap_abc list_abc of
         None \<Rightarrow> False
       | Some (h1, l1) \<Rightarrow>
           slist_elems h1 l1 = [12, 11, 10] \<and> sl_tail l1 = 1
           \<and> (case cc_slist_reverse h1 l1 of
                 None \<Rightarrow> False
               | Some (h2, l2) \<Rightarrow> l2 = list_abc \<and> slist_elems h2 l2 = [10, 11, 12]))"
proof -
  have wf: "array_wf ar_abcd" and el: "array_elems ar_abcd = [10, 11, 12, 13]"
    by (simp_all add: array_wf_def array_elems_def ar_abcd_def)
  have hd: "sl_head list_abc = 1" by (simp add: list_abc_def)
  from reverse_is_involution [OF wf concrete_lists(1)] wf el hd
  show ?thesis
    by (auto simp: concrete_lists split: option.splits)
qed

subsection \<open>Output slots\<close>

lemma array_slot:
  assumes wf: "array_wf ar" and lt: "i < ar_size ar"
  shows "unat i < length (ar_buffer ar)"
    and "ar_buffer ar ! unat i = Some (array_elems ar ! unat i)"
proof -
  have il: "unat i < unat (ar_size ar)" using lt by (simp add: word_less_nat_alt)
  from wf have nl: "unat (ar_size ar) \<le> length (ar_buffer ar)"
    by (simp add: array_wf_nth word_le_nat_alt)
  with il show len: "unat i < length (ar_buffer ar)" by simp
  from wf il have "ar_buffer ar ! unat i \<noteq> None" by (simp add: array_wf_nth)
  then show "ar_buffer ar ! unat i = Some (array_elems ar ! unat i)"
    using il len by (auto simp: array_elems_def)
qed

lemma array_replace_at_out:
  assumes wf: "array_wf ar" and lt: "i < ar_size ar"
  shows "cc_array_replace_at ar e i out
           = Some (CC_OK, ar\<lparr>ar_buffer := (ar_buffer ar)[unat i := Some e]\<rparr>,
                   put_out out (array_elems ar ! unat i))"
proof -
  from lt have "\<not> ar_size ar \<le> i" by simp
  then show ?thesis
    using array_slot [OF wf lt]
    by (cases out) (simp_all add: cc_array_replace_at_def buf_read_def buf_write_def put_out_def)
qed

lemma array_shift_defined:
  assumes wf: "array_wf ar" and lt: "i < ar_size ar"
  shows "\<exists>b. (if i \<noteq> ar_size ar - 1
               then memmove (ar_buffer ar) (unat i) (unat (i + 1)) (unat (ar_size ar - 1 - i))
               else Some (ar_buffer ar)) = Some b"
proof (cases "i = ar_size ar - 1")
  case True
  then show ?thesis by simp
next
  case False
  define n where "n = unat (ar_size ar)"
  have il: "unat i < n" using lt by (simp add: word_less_nat_alt n_def)
  from wf have nl: "n \<le> length (ar_buffer ar)"
    by (simp add: array_wf_nth word_le_nat_alt n_def)
  have i1: "unat (i + 1) = unat i + 1" using lt by (rule unat_succ_less)
  have "ar_size ar \<noteq> 0" using lt by auto
  then have s1: "unat (ar_size ar - 1) = n - 1" by (simp add: unat_minus_one n_def)
  have "i \<le> ar_size ar - 1" using il s1 by (simp add: word_le_nat_alt)
  then have len: "unat (ar_size ar - 1 - i) = n - 1 - unat i"
    by (simp add: unat_sub s1)
  from il nl have "unat i + (n - 1 - unat i) \<le> length (ar_buffer ar)"
    "unat i + 1 + (n - 1 - unat i) \<le> length (ar_buffer ar)" by arith+
  with False show ?thesis by (simp add: memmove_def i1 len)
qed

lemma array_remove_at_out:
  assumes wf: "array_wf ar" and lt: "i < ar_size ar"
  shows "\<exists>ar'. \<forall>out. cc_array_remove_at ar i out
                        = Some (CC_OK, ar', put_out out (array_elems ar ! unat i))"
proof -
  from lt have nle: "\<not> ar_size ar \<le> i" by simp
  from array_shift_defined [OF wf lt] obtain b where
    b: "(if i \<noteq> ar_size ar - 1
         then memmove (ar_buffer ar) (unat i) (unat (i + 1)) (unat (ar_size ar - 1 - i))
         else Some (ar_buffer ar)) = Some b"
    by blast
  have "cc_array_remove_at ar i out
          = Some (CC_OK, ar\<lparr>ar_buffer := b, ar_size := ar_size ar - 1\<rparr>,
                  put_out out (array_elems ar ! unat i))" for out
    unfolding cc_array_remove_at_def b
    using nle array_slot [OF wf lt] by (cases out) (simp_all add: buf_read_def put_out_def)
  then show ?thesis by blast
qed

lemma index_of_loop_finds:
  assumes wf: "array_wf ar" and kn: "k < unat (ar_size ar)" and ik: "unat i \<le> k"
    and ek: "array_elems ar ! k = e" and d: "d = k - unat i"
  shows "\<exists>m. index_of_loop ar e i = Some (CC_OK, Some m) \<and> m < ar_size ar"
  using ik d
proof (induction d arbitrary: i)
  case 0
  then have k: "k = unat i" by simp
  with kn have lt: "i < ar_size ar" by (simp add: word_less_nat_alt)
  from array_slot [OF wf lt] ek k lt show ?case
    by (subst index_of_loop.simps) (simp add: buf_read_def)
next
  case (Suc d)
  then have "unat i < k" by simp
  with kn have lt: "i < ar_size ar" by (simp add: word_less_nat_alt)
  have i1: "unat (i + 1) = unat i + 1" using lt by (rule unat_succ_less)
  from Suc.prems have p: "unat (i + 1) \<le> k" "d = k - unat (i + 1)" by (simp_all add: i1)
  from Suc.IH [OF p] obtain m where
    m: "index_of_loop ar e (i + 1) = Some (CC_OK, Some m)" "m < ar_size ar"
    by blast
  show ?case
  proof (cases "array_elems ar ! unat i = e")
    case True
    with array_slot [OF wf lt] lt show ?thesis
      by (subst index_of_loop.simps) (simp add: buf_read_def)
  next
    case False
    with array_slot [OF wf lt] lt m show ?thesis
      by (subst index_of_loop.simps) (simp add: buf_read_def)
  qed
qed

lemma array_remove_out:
  assumes wf: "array_wf ar" and lt: "i < ar_size ar"
  shows "\<exists>ar'. \<forall>out. cc_array_remove ar (array_elems ar ! unat i) out
                        = Some (CC_OK, ar', put_out out (array_elems ar ! unat i))"
proof -
  define e where "e = array_elems ar ! unat i"
  have kn: "unat i < unat (ar_size ar)" using lt by (simp add: word_less_nat_alt)
  have z: "unat (0 :: size_t) \<le> unat i" by simp
  from index_of_loop_finds [OF wf kn z e_def [symmetric] refl] obtain m where
    m: "index_of_loop ar e 0 = Some (CC_OK, Some m)" and ml: "m < ar_size ar"
    by blast
  from array_shift_defined [OF wf ml] obtain b where
    b: "(if m \<noteq> ar_size ar - 1
         then memmove (ar_buffer ar) (unat m) (unat (m + 1)) (unat (ar_size ar - 1 - m))
         else Some (ar_buffer ar)) = Some b"
    by blast
  have "cc_array_remove ar e out
          = Some (CC_OK, ar\<lparr>ar_buffer := b, ar_size := ar_size ar - 1\<rparr>, put_out out e)" for out
    unfolding cc_array_remove_def cc_array_index_of_def m
    by (simp add: b put_out_def)
  then show ?thesis unfolding e_def by blast
qed

lemma slist_elem_nth:
  assumes abs: "slist_abs h l ns" and lt: "j < sl_size l"
  shows "unat j < length ns" and "slist_elems h l ! unat j = node_data h (ns ! unat j)"
proof -
  from lt show len: "unat j < length ns"
    by (simp add: word_less_nat_alt slist_abs_unat [OF abs])
  then show "slist_elems h l ! unat j = node_data h (ns ! unat j)"
    by (simp add: slist_abs_elems [OF abs])
qed

lemma slist_remove_out:
  assumes abs: "slist_abs h l ns" and lt: "j < sl_size l"
  shows "\<exists>h' l'. \<forall>out. cc_slist_remove h l (slist_elems h l ! unat j) out
                          = Some (CC_OK, h', l', put_out out (slist_elems h l ! unat j))"
proof -
  define e where "e = slist_elems h l ! unat j"
  from slist_elem_nth [OF abs lt] have "ns ! unat j \<in> set ns" "node_data h (ns ! unat j) = e"
    by (simp_all add: e_def)
  then have "\<exists>x\<in>set ns. node_data h x = e" by blast
  from split_list_first_prop [OF this] obtain as a bs where
    ns: "ns = as @ a # bs" and a: "node_data h a = e" and as: "\<forall>x\<in>set as. node_data h x \<noteq> e"
    by blast
  from remove_abs_found [OF abs [unfolded ns] a as] show ?thesis
    unfolding e_def by blast
qed

lemma slist_remove_first_out:
  assumes abs: "slist_abs h l ns" and lt: "j < sl_size l"
  shows "\<exists>h' l'. \<forall>out. cc_slist_remove_first h l out
                          = Some (CC_OK, h', l', put_out out (slist_elems h l ! 0))"
proof -
  from slist_elem_nth(1) [OF abs lt] obtain a as where ns: "ns = a # as" by (cases ns) auto
  have "slist_elems h l ! 0 = node_data h a" by (simp add: slist_abs_elems [OF abs] ns)
  with remove_first_abs [OF abs [unfolded ns]] show ?thesis by auto
qed

text \<open>
  C9, as amended. On a well-formed array and a list that satisfies the invariant, at a
  valid index, \<open>replace_at\<close>, \<open>remove_at\<close>, \<open>remove\<close> of the element found there and the
  list's \<open>remove_first\<close> return \<open>CC_OK\<close> whatever the output slot is: the container they
  leave does not depend on the slot, a null slot stays null, and any other slot receives
  the replaced or removed element. \<open>get_at\<close> returns \<open>CC_OK\<close> and the element when the
  slot is not null; it stores through the slot without testing it, so with a null slot
  the call is undefined.
\<close>

theorem null_out_slot_discards_value:
  assumes "array_wf ar" and "i < ar_size ar" and "slist_inv h l" and "j < sl_size l"
  shows "(\<exists>ar'. \<forall>out. cc_array_replace_at ar e i out
                         = Some (CC_OK, ar', put_out out (array_elems ar ! unat i)))
    \<and> (\<exists>ar'. \<forall>out. cc_array_remove_at ar i out
                         = Some (CC_OK, ar', put_out out (array_elems ar ! unat i)))
    \<and> (\<exists>ar'. \<forall>out. cc_array_remove ar (array_elems ar ! unat i) out
                         = Some (CC_OK, ar', put_out out (array_elems ar ! unat i)))
    \<and> (\<exists>h' l'. \<forall>out. cc_slist_replace_at h l e j out
                           = Some (CC_OK, h', l', put_out out (slist_elems h l ! unat j)))
    \<and> (\<exists>h' l'. \<forall>out. cc_slist_remove_at h l j out
                           = Some (CC_OK, h', l', put_out out (slist_elems h l ! unat j)))
    \<and> (\<exists>h' l'. \<forall>out. cc_slist_remove h l (slist_elems h l ! unat j) out
                           = Some (CC_OK, h', l', put_out out (slist_elems h l ! unat j)))
    \<and> (\<exists>h' l'. \<forall>out. cc_slist_remove_first h l out
                           = Some (CC_OK, h', l', put_out out (slist_elems h l ! 0)))
    \<and> cc_array_get_at ar i (Out x) = Some (CC_OK, Out (array_elems ar ! unat i))
    \<and> cc_array_get_at ar i Out_NULL = None
    \<and> cc_slist_get_at h l j (Out x) = Some (CC_OK, Out (slist_elems h l ! unat j))
    \<and> cc_slist_get_at h l j Out_NULL = None"
proof -
  from assms(3) obtain ns where abs: "slist_abs h l ns" using slist_inv_abs by blast
  note el = slist_elem_nth(2) [OF abs assms(4)]
  have "\<exists>ar'. \<forall>out. cc_array_replace_at ar e i out
                      = Some (CC_OK, ar', put_out out (array_elems ar ! unat i))"
    using array_replace_at_out [OF assms(1,2)] by blast
  moreover note array_remove_at_out [OF assms(1,2)] array_remove_out [OF assms(1,2)]
  moreover have "\<exists>h' l'. \<forall>out. cc_slist_replace_at h l e j out
                        = Some (CC_OK, h', l', put_out out (slist_elems h l ! unat j))"
    using replace_at_abs [OF abs assms(4), of e] unfolding el by blast
  moreover have "\<exists>h' l'. \<forall>out. cc_slist_remove_at h l j out
                        = Some (CC_OK, h', l', put_out out (slist_elems h l ! unat j))"
    using remove_at_abs [OF abs assms(4)] unfolding el by blast
  moreover note slist_remove_out [OF abs assms(4)] slist_remove_first_out [OF abs assms(4)]
  moreover have "cc_array_get_at ar i (Out x) = Some (CC_OK, Out (array_elems ar ! unat i))"
    using assms(1,2) by (rule get_at_elems)
  moreover have "cc_array_get_at ar i Out_NULL = None"
    using assms(2) by (simp add: cc_array_get_at_def)
  moreover have "cc_slist_get_at h l j (Out x) = Some (CC_OK, Out (slist_elems h l ! unat j))"
    using get_at_abs(1) [OF abs assms(4)] unfolding el .
  moreover have "cc_slist_get_at h l j Out_NULL = None"
    using abs assms(4) by (rule get_at_abs(2))
  ultimately show ?thesis by blast
qed

theorem null_out_slot_discards_value_witness:
  "array_wf ar_abcd \<and> 1 < ar_size ar_abcd \<and> slist_inv heap_abc list_abc \<and> 1 < sl_size list_abc
   \<and> array_elems ar_abcd = [10, 11, 12, 13] \<and> slist_elems heap_abc list_abc = [10, 11, 12]
   \<and> (\<exists>ar'. cc_array_replace_at ar_abcd 99 1 Out_NULL = Some (CC_OK, ar', Out_NULL)
            \<and> cc_array_replace_at ar_abcd 99 1 (Out 0) = Some (CC_OK, ar', Out 11))
   \<and> (\<exists>ar'. cc_array_remove_at ar_abcd 1 Out_NULL = Some (CC_OK, ar', Out_NULL)
            \<and> cc_array_remove_at ar_abcd 1 (Out 0) = Some (CC_OK, ar', Out 11))
   \<and> (\<exists>ar'. cc_array_remove ar_abcd 11 Out_NULL = Some (CC_OK, ar', Out_NULL)
            \<and> cc_array_remove ar_abcd 11 (Out 0) = Some (CC_OK, ar', Out 11))
   \<and> (\<exists>h' l'. cc_slist_replace_at heap_abc list_abc 99 1 Out_NULL = Some (CC_OK, h', l', Out_NULL)
            \<and> cc_slist_replace_at heap_abc list_abc 99 1 (Out 0) = Some (CC_OK, h', l', Out 11))
   \<and> (\<exists>h' l'. cc_slist_remove_at heap_abc list_abc 1 Out_NULL = Some (CC_OK, h', l', Out_NULL)
            \<and> cc_slist_remove_at heap_abc list_abc 1 (Out 0) = Some (CC_OK, h', l', Out 11))
   \<and> (\<exists>h' l'. cc_slist_remove heap_abc list_abc 11 Out_NULL = Some (CC_OK, h', l', Out_NULL)
            \<and> cc_slist_remove heap_abc list_abc 11 (Out 0) = Some (CC_OK, h', l', Out 11))
   \<and> (\<exists>h' l'. cc_slist_remove_first heap_abc list_abc Out_NULL = Some (CC_OK, h', l', Out_NULL)
            \<and> cc_slist_remove_first heap_abc list_abc (Out 0) = Some (CC_OK, h', l', Out 10))
   \<and> cc_array_get_at ar_abcd 1 (Out 0) = Some (CC_OK, Out 11)
   \<and> cc_slist_get_at heap_abc list_abc 1 (Out 0) = Some (CC_OK, Out 11)"
proof -
  have wf: "array_wf ar_abcd" and lt: "1 < ar_size ar_abcd"
    and el: "array_elems ar_abcd = [10, 11, 12, 13]"
    by (simp_all add: array_wf_def array_elems_def ar_abcd_def)
  have lt': "1 < sl_size list_abc" by (simp add: list_abc_def)
  have nul: "put_out Out_NULL v = Out_NULL" and out: "put_out (Out 0) v = Out v"
    for v :: void_ptr
    by (simp_all add: put_out_def)
  note t = null_out_slot_discards_value [OF wf lt concrete_lists(1) lt', of 99 0,
      unfolded el concrete_lists(6)]
  have a: "[10, 11, 12, 13 :: void_ptr] ! unat (1 :: size_t) = 11"
    and b: "[10, 11, 12 :: void_ptr] ! unat (1 :: size_t) = 11"
    and c: "[10, 11, 12 :: void_ptr] ! 0 = 10"
    by simp_all
  from t [unfolded a b c] wf lt lt' el show ?thesis
    by (metis nul out concrete_lists(1) concrete_lists(6))
qed

text \<open>
  C9 as stated fails for \<open>get_at\<close>: with a null output slot and a valid index the call
  stores through the null pointer, on the array and on the list, and returns nothing.
\<close>

theorem get_at_null_out_undefined:
  "array_wf ar_abcd \<and> 0 < ar_size ar_abcd \<and> cc_array_get_at ar_abcd 0 Out_NULL = None
   \<and> slist_inv heap_abc list_abc \<and> 0 < sl_size list_abc
   \<and> cc_slist_get_at heap_abc list_abc 0 Out_NULL = None"
proof -
  have "array_wf ar_abcd" "0 < ar_size ar_abcd" "cc_array_get_at ar_abcd 0 Out_NULL = None"
    by (simp_all add: array_wf_def ar_abcd_def cc_array_get_at_def)
  moreover have lt: "0 < sl_size list_abc" by (simp add: list_abc_def)
  moreover have "cc_slist_get_at heap_abc list_abc 0 Out_NULL = None"
    using list_abc_abs lt by (rule get_at_abs(2))
  ultimately show ?thesis by (simp add: concrete_lists(1))
qed

end
